theory Spec2Isabelle
  imports Main "HOL-Library.Sublist"
begin

section \<open>JavaScript strings\<close>

text \<open>
  A JavaScript string is a sequence of UTF-16 code units. The model takes the code
  units U+0000 to U+00FF: a \<open>char\<close> is one code unit with the code point of the same
  number (Latin-1), and \<open>length\<close> counts code units as \<^verbatim>\<open>String.prototype.length\<close>
  does. The built-in string methods the two scripts call are written out below on this
  range; code units above U+00FF are outside the model.
\<close>

definition code_of :: "char \<Rightarrow> nat" where
  "code_of c = of_char c"

text \<open>
  \<^verbatim>\<open>String.prototype.trim\<close> removes WhiteSpace and LineTerminator code points from both
  ends. Below U+0100 these are TAB, LF, VT, FF, CR, SPACE and NO-BREAK SPACE.
\<close>

definition is_space :: "char \<Rightarrow> bool" where
  "is_space c = (code_of c \<in> {9, 10, 11, 12, 13, 32, 160})"

definition trim :: "string \<Rightarrow> string" where
  "trim s = rev (dropWhile is_space (rev (dropWhile is_space s)))"

text \<open>
  \<^verbatim>\<open>String.prototype.toLowerCase\<close>: below U+0100 the letters with a lower-case mapping
  are A to Z and U+00C0 to U+00DE without the multiplication sign U+00D7; each maps to
  the code unit 32 above it.
\<close>

definition lower_char :: "char \<Rightarrow> char" where
  "lower_char c =
     (let n = code_of c in
      if (65 \<le> n \<and> n \<le> 90) \<or> (192 \<le> n \<and> n \<le> 222 \<and> n \<noteq> 215)
      then char_of (n + 32) else c)"

definition toLowerCase :: "string \<Rightarrow> string" where
  "toLowerCase s = map lower_char s"

text \<open>\<^verbatim>\<open>s.startsWith(q)\<close> and \<^verbatim>\<open>s.includes(q)\<close>: a scan for \<open>q\<close> at every position of \<open>s\<close>.\<close>

fun startsWith :: "string \<Rightarrow> string \<Rightarrow> bool" where
  "startsWith s [] = True"
| "startsWith [] (q # qs) = False"
| "startsWith (c # cs) (q # qs) = (c = q \<and> startsWith cs qs)"

fun includes_str :: "string \<Rightarrow> string \<Rightarrow> bool" where
  "includes_str [] q = (q = [])"
| "includes_str (c # cs) q = (startsWith (c # cs) q \<or> includes_str cs q)"

text \<open>\<^verbatim>\<open>s.substring(0, n)\<close> for a non-negative \<open>n\<close>: the first \<open>n\<close> code units, or all of \<open>s\<close>.\<close>

definition substring0 :: "string \<Rightarrow> nat \<Rightarrow> string" where
  "substring0 s n = take n s"

section \<open>The search index (search script)\<close>

text \<open>The object literal pushed onto \<^verbatim>\<open>searchIndex\<close>; \<open>element\<close> is a node handle or null.\<close>

type_synonym node = nat

record search_item =
  item_id :: string
  item_title :: string
  item_content :: string
  item_section :: string
  item_element :: "node option"

subsection \<open>Query evaluation\<close>

text \<open>
  The callback of \<^verbatim>\<open>searchIndex.filter\<close> in \<^verbatim>\<open>handleSearch\<close>, and the expression
  \<^verbatim>\<open>searchIndex.filter(...).slice(0, 10)\<close> bound to \<^verbatim>\<open>results\<close>.
\<close>

definition item_matches :: "string \<Rightarrow> search_item \<Rightarrow> bool" where
  "item_matches query item =
     (let titleMatch = includes_str (toLowerCase (item_title item)) query;
          contentMatch = includes_str (toLowerCase (item_content item)) query
      in titleMatch \<or> contentMatch)"

definition handleSearch_results :: "search_item list \<Rightarrow> string \<Rightarrow> search_item list" where
  "handleSearch_results searchIndex query = take 10 (filter (item_matches query) searchIndex)"


subsection \<open>Rendering helpers\<close>

text \<open>
  \<^verbatim>\<open>escapeHtml\<close> sets the text of a detached element and reads its \<^verbatim>\<open>innerHTML\<close> back:
  the HTML serialisation of a text node, which replaces the ampersand, the no-break
  space and the two angle brackets by their entities.
\<close>

definition escapeHtml_char :: "char \<Rightarrow> string" where
  "escapeHtml_char c =
     (if c = CHR ''&'' then ''&amp;''
      else if code_of c = 160 then ''&nbsp;''
      else if c = CHR ''<'' then ''&lt;''
      else if c = CHR ''>'' then ''&gt;''
      else [c])"

definition escapeHtml :: "string \<Rightarrow> string" where
  "escapeHtml text = concat (map escapeHtml_char text)"

text \<open>
  \<^verbatim>\<open>escapeRegex\<close>: every character of the class \<^verbatim>\<open>[.*+?^${}()|[\]\\]\<close> is replaced
  by a backslash and itself (\<^verbatim>\<open>'\\$&'\<close>).
\<close>

definition backslash :: char where
  "backslash = CHR 0x5C"

definition escapeRegex_class :: "char \<Rightarrow> bool" where
  "escapeRegex_class c = (c \<in> set ''.*+?^${}()|[]'' \<or> c = backslash)"

definition escapeRegex :: "string \<Rightarrow> string" where
  "escapeRegex s = concat (map (\<lambda>c. if escapeRegex_class c then [backslash, c] else [c]) s)"

text \<open>\<^verbatim>\<open>truncate(text, length)\<close>.\<close>

definition truncate_str :: "string \<Rightarrow> nat \<Rightarrow> string" where
  "truncate_str text len = (if length text \<le> len then text else substring0 text len @ ''...'')"

subsection \<open>The regular expression of \<^verbatim>\<open>highlightMatch\<close>\<close>

text \<open>
  \<^verbatim>\<open>new RegExp(source, 'gi')\<close> is modelled on the patterns that are one capturing group
  around a sequence of literal atoms: an atom is a pattern character (any character but
  the fourteen syntax characters \<^verbatim>\<open>^ $ \ . * + ? ( ) [ ] { } |\<close>) or a backslash followed
  by a syntax character (an identity escape). \<open>regexp_literal source\<close> is the literal
  text such a pattern stands for. Every other source either is a \<^verbatim>\<open>SyntaxError\<close> or uses
  an operator whose matching is not modelled: the result is \<open>None\<close>.
\<close>

definition syntax_character :: "char \<Rightarrow> bool" where
  "syntax_character c = (c \<in> set ''^$.*+?()[]{}|'' \<or> c = backslash)"

fun literal_atoms :: "string \<Rightarrow> string option" where
  "literal_atoms [] = Some []"
| "literal_atoms [c] = (if syntax_character c then None else Some [c])"
| "literal_atoms (c # d # rest) =
     (if c = backslash then
        (if syntax_character d then map_option (Cons d) (literal_atoms rest) else None)
      else if syntax_character c then None
      else map_option (Cons c) (literal_atoms (d # rest)))"

definition regexp_literal :: "string \<Rightarrow> string option" where
  "regexp_literal source =
     (case source of
        [] \<Rightarrow> None
      | c # body \<Rightarrow>
          if c = CHR ''('' \<and> body \<noteq> [] \<and> last body = CHR '')''
          then literal_atoms (butlast body) else None)"

text \<open>
  The flag \<^verbatim>\<open>i\<close> compares canonicalised code units: the upper-case mapping of the single
  code unit, kept only when it is again a single code unit and does not move a
  non-ASCII unit into ASCII. Below U+0100: a to z and U+00E0 to U+00FE without the
  division sign U+00F7 map to the unit 32 below, U+00FF to U+0178, U+00B5 to U+039C;
  U+00DF (upper case ``SS'') and everything else stay.
\<close>

definition canonicalize :: "char \<Rightarrow> nat" where
  "canonicalize c =
     (let n = code_of c in
      if (97 \<le> n \<and> n \<le> 122) \<or> (224 \<le> n \<and> n \<le> 254 \<and> n \<noteq> 247) then n - 32
      else if n = 255 then 376
      else if n = 181 then 924
      else n)"

fun matches_at :: "string \<Rightarrow> string \<Rightarrow> bool" where
  "matches_at [] s = True"
| "matches_at (p # ps) [] = False"
| "matches_at (p # ps) (c # cs) = (canonicalize p = canonicalize c \<and> matches_at ps cs)"

definition mark :: "string \<Rightarrow> string" where
  "mark m = ''<mark>'' @ m @ ''</mark>''"

text \<open>
  \<^verbatim>\<open>escaped.replace(regex, '<mark>$1</mark>')\<close> with the flag \<^verbatim>\<open>g\<close>: the scan starts at
  the left; where the literal matches, the matched text (\<^verbatim>\<open>$1\<close>) is wrapped and the scan
  goes on behind it; elsewhere one code unit is copied. An empty match wraps nothing
  and the scan advances by one unit.
\<close>

function replace_marks :: "string \<Rightarrow> string \<Rightarrow> string" where
  "replace_marks lit s =
     (if matches_at lit s then
        (if lit = [] then
           (case s of [] \<Rightarrow> mark [] | c # cs \<Rightarrow> mark [] @ c # replace_marks lit cs)
         else mark (take (length lit) s) @ replace_marks lit (drop (length lit) s))
      else (case s of [] \<Rightarrow> [] | c # cs \<Rightarrow> c # replace_marks lit cs))"
  by pat_completeness auto
termination
proof (relation "measure (\<lambda>(lit, s). length s)")
  show "wf (measure (\<lambda>(lit, s). length s))" by simp
next
  fix lit s :: string and c cs
  assume "s = c # cs"
  then show "((lit, cs), (lit, s)) \<in> measure (\<lambda>(lit, s). length s)" by simp
next
  fix lit s :: string
  assume m: "matches_at lit s" and ne: "lit \<noteq> []"
  have "s \<noteq> []" using m ne by (cases lit; cases s) auto
  moreover have "0 < length lit" using ne by simp
  ultimately show "((lit, drop (length lit) s), (lit, s)) \<in> measure (\<lambda>(lit, s). length s)"
    by simp
next
  fix lit s :: string and c cs
  assume "s = c # cs"
  then show "((lit, cs), (lit, s)) \<in> measure (\<lambda>(lit, s). length s)" by simp
qed

declare replace_marks.simps [simp del]

text \<open>
  What the script can raise: the \<^verbatim>\<open>SyntaxError\<close> of \<^verbatim>\<open>document.querySelector\<close> for a
  selector that does not parse, and the regular expression outside the patterns above.
\<close>

datatype error = RegExpNotLiteral string | SyntaxError string

text \<open>\<^verbatim>\<open>highlightMatch(text, query)\<close>.\<close>

definition highlightMatch :: "string \<Rightarrow> string \<Rightarrow> error + string" where
  "highlightMatch text query =
     (if query = [] then Inr (escapeHtml text)
      else
        let escaped = escapeHtml text;
            source = ''('' @ escapeRegex query @ '')''
        in case regexp_literal source of
             None \<Rightarrow> Inl (RegExpNotLiteral source)
           | Some lit \<Rightarrow> Inr (replace_marks lit escaped))"

subsection \<open>The page as the index builder reads it\<close>

text \<open>
  The builder reads the page through selector queries only. A \<open>section_el\<close> is one
  element of \<^verbatim>\<open>querySelectorAll('.doc-section')\<close>: its \<^verbatim>\<open>id\<close> attribute if present, the
  \<^verbatim>\<open>textContent\<close> of \<^verbatim>\<open>querySelector('h1, h2, h3')\<close> if there is such a heading, and the
  \<^verbatim>\<open>textContent\<close> of each element of \<^verbatim>\<open>querySelectorAll('p, li, td, .info-box')\<close> in
  document order. A \<open>nav_link\<close> is one element of \<^verbatim>\<open>querySelectorAll('.sidebar-nav a')\<close>:
  its \<^verbatim>\<open>href\<close> attribute if present, its \<^verbatim>\<open>textContent\<close>, and for
  \<^verbatim>\<open>closest('.nav-group')\<close>, if there is one, the \<^verbatim>\<open>textContent\<close> of its
  \<^verbatim>\<open>.nav-group-title\<close>, if there is one. \<open>doc_ids\<close> lists the elements with an id in
  document order, for \<^verbatim>\<open>getElementById\<close>. \<open>doc_querySelector\<close> is the page's answer to
  \<^verbatim>\<open>document.querySelector(selector)\<close> for a selector that picks a sidebar link: the first
  link that matches, none, or the \<^verbatim>\<open>SyntaxError\<close> that the selector parser raises. The
  selector engine is the browser's; the model takes its answers as part of the page.
\<close>

record section_el =
  sec_node :: node
  sec_id :: "string option"
  sec_heading :: "string option"
  sec_texts :: "string list"

record nav_link =
  link_href :: "string option"
  link_text :: string
  link_group :: "string option option"

record document =
  doc_sections :: "section_el list"
  sidebar_links :: "nav_link list"
  doc_ids :: "(string \<times> node) list"
  doc_querySelector :: "string \<Rightarrow> error + nav_link option"

text \<open>The property \<^verbatim>\<open>element.id\<close>: the attribute, or the empty string.\<close>

definition element_id :: "section_el \<Rightarrow> string" where
  "element_id el = (case sec_id el of None \<Rightarrow> [] | Some i \<Rightarrow> i)"

definition getElementById :: "document \<Rightarrow> string \<Rightarrow> node option" where
  "getElementById doc i = (if i = [] then None else map_of (doc_ids doc) i)"

text \<open>
  \<^verbatim>\<open>findParentSection\<close>: the selector is the template literal
  \<^verbatim>\<open>.sidebar-nav a[href="#${id}"]\<close> with the id put in as it is, and the answer is the
  page's. An exception of \<^verbatim>\<open>querySelector\<close> leaves the function, and the build, at once.
\<close>

definition double_quote :: char where
  "double_quote = CHR 0x22"

definition parent_selector :: "string \<Rightarrow> string" where
  "parent_selector i = ''.sidebar-nav a[href='' @ [double_quote] @ ''#'' @ i @ [double_quote] @ '']''"

definition findParentSection :: "document \<Rightarrow> section_el \<Rightarrow> error + string" where
  "findParentSection doc element =
     (let i = element_id element in
      if i = [] then Inr []
      else
        case doc_querySelector doc (parent_selector i) of
          Inl e \<Rightarrow> Inl e
        | Inr None \<Rightarrow> Inr []
        | Inr (Some navLink) \<Rightarrow>
            (case link_group navLink of
               None \<Rightarrow> Inr []
             | Some grp \<Rightarrow>
                 (case grp of None \<Rightarrow> Inr [] | Some groupTitle \<Rightarrow> Inr (trim groupTitle))))"

subsection \<open>\<^verbatim>\<open>buildSearchIndex\<close>\<close>

text \<open>
  The two \<^verbatim>\<open>forEach\<close> callbacks, each taking the array \<^verbatim>\<open>searchIndex\<close> and returning it
  after its \<^verbatim>\<open>push\<close>, if any. The first can stop with the error of
  \<^verbatim>\<open>findParentSection\<close>, which is evaluated only when the record is built.
\<close>

definition section_title :: "section_el \<Rightarrow> string" where
  "section_title section = (case sec_heading section of None \<Rightarrow> [] | Some h \<Rightarrow> trim h)"

definition section_text :: "section_el \<Rightarrow> string" where
  "section_text section = foldl (\<lambda>content el. content @ '' '' @ el) [] (sec_texts section)"

definition section_content :: "section_el \<Rightarrow> string" where
  "section_content section = substring0 (trim (section_text section)) 500"

definition index_section :: "document \<Rightarrow> search_item list \<Rightarrow> section_el \<Rightarrow> error + search_item list" where
  "index_section doc idx section =
     (let i = element_id section;
          title = section_title section;
          content = section_content section
      in if title \<noteq> [] \<or> content \<noteq> [] then
           (case findParentSection doc section of
              Inl e \<Rightarrow> Inl e
            | Inr parent \<Rightarrow>
                Inr (idx @ [\<lparr>item_id = i, item_title = title, item_content = content,
                             item_section = parent, item_element = Some (sec_node section)\<rparr>]))
         else Inr idx)"

definition index_link :: "document \<Rightarrow> search_item list \<Rightarrow> nav_link \<Rightarrow> search_item list" where
  "index_link doc idx link =
     (case link_href link of
        None \<Rightarrow> idx
      | Some href \<Rightarrow>
          if href \<noteq> [] \<and> startsWith href ''#'' then
            (let targetId = drop 1 href;
                 exists = list_ex (\<lambda>item. item_id item = targetId) idx
             in if \<not> exists then
                  idx @ [\<lparr>item_id = targetId, item_title = trim (link_text link),
                          item_content = [],
                          item_section =
                            (case link_group link of Some (Some t) \<Rightarrow> t | _ \<Rightarrow> []),
                          item_element = getElementById doc targetId\<rparr>]
                else idx)
          else idx)"

fun forEach_section :: "document \<Rightarrow> section_el list \<Rightarrow> search_item list \<Rightarrow> error + search_item list" where
  "forEach_section doc [] idx = Inr idx"
| "forEach_section doc (section # sections) idx =
     (case index_section doc idx section of
        Inl e \<Rightarrow> Inl e
      | Inr idx' \<Rightarrow> forEach_section doc sections idx')"

text \<open>
  \<^verbatim>\<open>buildSearchIndex()\<close> on the array it finds in \<^verbatim>\<open>searchIndex\<close>. \<^verbatim>\<open>init\<close> calls it on
  the empty array of the declaration; \<^verbatim>\<open>window.mdashSearch.reindex\<close> is the same function.
\<close>

definition buildSearchIndex :: "document \<Rightarrow> search_item list \<Rightarrow> error + search_item list" where
  "buildSearchIndex doc idx =
     (case forEach_section doc (doc_sections doc) idx of
        Inl e \<Rightarrow> Inl e
      | Inr idx' \<Rightarrow> Inr (foldl (index_link doc) idx' (sidebar_links doc)))"

definition init :: "document \<Rightarrow> error + search_item list" where
  "init doc = buildSearchIndex doc []"

definition reindex :: "document \<Rightarrow> search_item list \<Rightarrow> error + search_item list" where
  "reindex doc idx = buildSearchIndex doc idx"

subsection \<open>\<^verbatim>\<open>handleSearch\<close> and \<^verbatim>\<open>renderResults\<close>\<close>

text \<open>
  What \<^verbatim>\<open>searchResults.innerHTML\<close> is set to, by its structure: the empty string, the
  empty-state block with the escaped query, or one anchor for each result.
\<close>

record result_anchor =
  anchor_href :: string
  anchor_selected :: bool
  anchor_index :: nat
  anchor_section :: "string option"
  anchor_title :: string
  anchor_excerpt :: "string option"

datatype rendered = Blank | EmptyState string | ResultList "result_anchor list"

record search_state =
  st_searchIndex :: "search_item list"
  st_input :: string
  st_results :: rendered

definition render_item :: "string \<Rightarrow> nat \<Rightarrow> search_item \<Rightarrow> error + result_anchor" where
  "render_item query index item =
     (case highlightMatch (item_title item) query of
        Inl e \<Rightarrow> Inl e
      | Inr title \<Rightarrow>
          (case (if item_content item \<noteq> []
                 then map_sum id Some (highlightMatch (truncate_str (item_content item) 150) query)
                 else Inr None) of
             Inl e \<Rightarrow> Inl e
           | Inr excerpt \<Rightarrow>
               Inr \<lparr>anchor_href = CHR ''#'' # item_id item,
                    anchor_selected = (index = 0),
                    anchor_index = index,
                    anchor_section =
                      (if item_section item \<noteq> [] then Some (escapeHtml (item_section item))
                       else None),
                    anchor_title = title,
                    anchor_excerpt = excerpt\<rparr>))"

fun render_items :: "string \<Rightarrow> nat \<Rightarrow> search_item list \<Rightarrow> error + result_anchor list" where
  "render_items query index [] = Inr []"
| "render_items query index (item # items) =
     (case render_item query index item of
        Inl e \<Rightarrow> Inl e
      | Inr a \<Rightarrow>
          (case render_items query (Suc index) items of
             Inl e \<Rightarrow> Inl e
           | Inr rest \<Rightarrow> Inr (a # rest)))"

definition renderResults :: "search_item list \<Rightarrow> string \<Rightarrow> error + rendered" where
  "renderResults results query =
     (if length results = 0 then Inr (EmptyState (escapeHtml query))
      else map_sum id ResultList (render_items query 0 results))"

definition handleSearch :: "search_state \<Rightarrow> error + search_state" where
  "handleSearch st =
     (let query = toLowerCase (trim (st_input st)) in
      if query = [] then Inr (st\<lparr>st_results := Blank\<rparr>)
      else
        let results = handleSearch_results (st_searchIndex st) query
        in map_sum id (\<lambda>r. st\<lparr>st_results := r\<rparr>) (renderResults results query))"

section \<open>Specification-side notions and example pages\<close>

text \<open>
  The containment the specification speaks of: the normalised query occurs as a
  contiguous run of code units in the lower-cased title or in the lower-cased content.
\<close>

definition spec_contains_query :: "string \<Rightarrow> search_item \<Rightarrow> bool" where
  "spec_contains_query q item =
     ((\<exists>pre post. toLowerCase (item_title item) = pre @ q @ post)
      \<or> (\<exists>pre post. toLowerCase (item_content item) = pre @ q @ post))"

text \<open>
  The example pages below carry ids of lower-case letters only. For such an id the
  selector of \<^verbatim>\<open>findParentSection\<close> parses, and it picks the first sidebar link whose
  \<^verbatim>\<open>href\<close> attribute is \<^verbatim>\<open>#id\<close>: \<open>sidebar_query\<close> is the answer of a page with the given
  sidebar links to these selectors.
\<close>

definition sidebar_query :: "nav_link list \<Rightarrow> string \<Rightarrow> error + nav_link option" where
  "sidebar_query links selector =
     Inr (find (\<lambda>l. case link_href l of
                       None \<Rightarrow> False
                     | Some h \<Rightarrow>
                         selector = ''.sidebar-nav a[href='' @ [double_quote] @ h @ [double_quote] @ '']'')
            links)"

text \<open>The page of the specification's first scenario, and a page of fifteen sections on ``config''.\<close>

definition intro_install_doc :: document where
  "intro_install_doc =
     \<lparr>doc_sections =
        [\<lparr>sec_node = 1, sec_id = Some ''intro'', sec_heading = Some ''Introduction'',
          sec_texts = [''Welcome to mdash'']\<rparr>,
         \<lparr>sec_node = 2, sec_id = Some ''install'', sec_heading = Some ''Installation'',
          sec_texts = [''Run the installer'']\<rparr>],
      sidebar_links = [],
      doc_ids = [(''intro'', 1), (''install'', 2)],
      doc_querySelector = sidebar_query []\<rparr>"

definition intro_item :: search_item where
  "intro_item =
     \<lparr>item_id = ''intro'', item_title = ''Introduction'', item_content = ''Welcome to mdash'',
      item_section = [], item_element = Some 1\<rparr>"

definition install_item :: search_item where
  "install_item =
     \<lparr>item_id = ''install'', item_title = ''Installation'', item_content = ''Run the installer'',
      item_section = [], item_element = Some 2\<rparr>"

definition config_item :: "char \<Rightarrow> search_item" where
  "config_item c =
     \<lparr>item_id = [CHR ''s'', c], item_title = [], item_content = ''Edit the Config file '' @ [c],
      item_section = [], item_element = Some (code_of c)\<rparr>"

definition config_doc :: document where
  "config_doc =
     \<lparr>doc_sections =
        map (\<lambda>c. \<lparr>sec_node = code_of c, sec_id = Some [CHR ''s'', c], sec_heading = None,
                   sec_texts = [''Edit the Config file '' @ [c]]\<rparr>) ''abcdefghijklmno'',
      sidebar_links = [],
      doc_ids = [],
      doc_querySelector = sidebar_query []\<rparr>"




text \<open>A section whose text is longer than the content limit, and a record with its content.\<close>

definition long_section :: section_el where
  "long_section =
     \<lparr>sec_node = 7, sec_id = Some ''long'', sec_heading = Some '' Long section '',
      sec_texts = [replicate 300 (CHR ''a''), replicate 300 (CHR ''b'')]\<rparr>"

definition long_item :: search_item where
  "long_item =
     \<lparr>item_id = ''long'', item_title = ''Long section'',
      item_content = replicate 300 (CHR ''a'') @ '' '' @ replicate 199 (CHR ''b''),
      item_section = [], item_element = Some 7\<rparr>"

text \<open>The sections that the builder keeps: title or content is not empty.\<close>

definition section_indexed :: "section_el \<Rightarrow> bool" where
  "section_indexed section = (section_title section \<noteq> [] \<or> section_content section \<noteq> [])"

text \<open>
  A page with two sections that have a heading and no \<^verbatim>\<open>id\<close> attribute, and the page of
  the first scenario with a sidebar: a link to the section \<^verbatim>\<open>install\<close> inside a group, and
  two links to \<^verbatim>\<open>#faq\<close>, which no section carries.
\<close>

definition no_id_doc :: document where
  "no_id_doc =
     \<lparr>doc_sections =
        [\<lparr>sec_node = 1, sec_id = None, sec_heading = Some ''Overview'', sec_texts = []\<rparr>,
         \<lparr>sec_node = 2, sec_id = None, sec_heading = Some ''Details'', sec_texts = []\<rparr>],
      sidebar_links = [],
      doc_ids = [],
      doc_querySelector = sidebar_query []\<rparr>"

definition overview_item :: search_item where
  "overview_item =
     \<lparr>item_id = [], item_title = ''Overview'', item_content = [], item_section = [],
      item_element = Some 1\<rparr>"

definition details_item :: search_item where
  "details_item =
     \<lparr>item_id = [], item_title = ''Details'', item_content = [], item_section = [],
      item_element = Some 2\<rparr>"

definition install_link :: nav_link where
  "install_link =
     \<lparr>link_href = Some ''#install'', link_text = ''Installation'',
      link_group = Some (Some '' Guide '')\<rparr>"

definition faq_link :: nav_link where
  "faq_link = \<lparr>link_href = Some ''#faq'', link_text = '' FAQ '', link_group = None\<rparr>"

definition faq_doc :: document where
  "faq_doc =
     intro_install_doc
       \<lparr>sidebar_links := [install_link, faq_link, faq_link],
        doc_querySelector := sidebar_query [install_link, faq_link, faq_link]\<rparr>"

definition faq_index :: "search_item list" where
  "faq_index =
     [intro_item, install_item\<lparr>item_section := ''Guide''\<rparr>,
      \<lparr>item_id = ''faq'', item_title = ''FAQ'', item_content = [], item_section = [],
       item_element = None\<rparr>]"

text \<open>
  Further example pages: the long section with a sidebar link to \<^verbatim>\<open>#faq\<close>; two sections
  that carry the same id; and a section whose id holds a backslash, on a page whose
  sidebar has no link that the selector of this id picks.
\<close>

definition faq_item :: search_item where
  "faq_item =
     \<lparr>item_id = ''faq'', item_title = ''FAQ'', item_content = [], item_section = [],
      item_element = None\<rparr>"

definition long_doc :: document where
  "long_doc =
     \<lparr>doc_sections = [long_section], sidebar_links = [faq_link], doc_ids = [(''long'', 7)],
      doc_querySelector = sidebar_query [faq_link]\<rparr>"

definition setup_item :: "node \<Rightarrow> string \<Rightarrow> search_item" where
  "setup_item n title =
     \<lparr>item_id = ''setup'', item_title = title, item_content = [], item_section = [],
      item_element = Some n\<rparr>"

definition same_id_doc :: document where
  "same_id_doc =
     \<lparr>doc_sections =
        [\<lparr>sec_node = 1, sec_id = Some ''setup'', sec_heading = Some ''Setup'', sec_texts = []\<rparr>,
         \<lparr>sec_node = 2, sec_id = Some ''setup'', sec_heading = Some ''More setup'', sec_texts = []\<rparr>],
      sidebar_links = [],
      doc_ids = [(''setup'', 1)],
      doc_querySelector = sidebar_query []\<rparr>"

definition backslash_doc :: document where
  "backslash_doc =
     \<lparr>doc_sections =
        [\<lparr>sec_node = 1, sec_id = Some [CHR ''a'', backslash, CHR ''b''],
          sec_heading = Some ''Escapes'', sec_texts = []\<rparr>],
      sidebar_links = [],
      doc_ids = [([CHR ''a'', backslash, CHR ''b''], 1)],
      doc_querySelector = (\<lambda>selector. Inr None)\<rparr>"

section \<open>Keyboard navigation (navigation script)\<close>

text \<open>
  The variables \<^verbatim>\<open>navItems\<close> and \<^verbatim>\<open>currentIndex\<close> of the script, and the element that
  \<^verbatim>\<open>focusItem\<close> has given the focus last. \<^verbatim>\<open>currentIndex\<close> is a number that starts at
  \<open>-1\<close>, so it is an \<open>int\<close>. \<^verbatim>\<open>navItems[index]\<close> is \<^verbatim>\<open>undefined\<close> outside the array, and
  \<^verbatim>\<open>focusItem\<close> then does nothing. The \<^verbatim>\<open>focusin\<close> listener that \<^verbatim>\<open>item.focus()\<close> may
  trigger writes the item's own index, the value \<^verbatim>\<open>currentIndex\<close> already has.
\<close>

record nav_state =
  navItems :: "node list"
  currentIndex :: int
  focused :: "node option"

definition focusItem :: "nav_state \<Rightarrow> int \<Rightarrow> nav_state" where
  "focusItem st index =
     (if 0 \<le> index \<and> index < int (length (navItems st))
      then st\<lparr>focused := Some (navItems st ! nat index)\<rparr>
      else st)"

definition navigateNext :: "nav_state \<Rightarrow> nav_state" where
  "navigateNext st =
     (if currentIndex st < int (length (navItems st)) - 1
      then (let st' = st\<lparr>currentIndex := currentIndex st + 1\<rparr> in focusItem st' (currentIndex st'))
      else st)"

definition navigatePrev :: "nav_state \<Rightarrow> nav_state" where
  "navigatePrev st =
     (if currentIndex st > 0
      then (let st' = st\<lparr>currentIndex := currentIndex st - 1\<rparr> in focusItem st' (currentIndex st'))
      else st)"

definition navigateFirst :: "nav_state \<Rightarrow> nav_state" where
  "navigateFirst st = (let st' = st\<lparr>currentIndex := 0\<rparr> in focusItem st' (currentIndex st'))"

definition navigateLast :: "nav_state \<Rightarrow> nav_state" where
  "navigateLast st =
     (let st' = st\<lparr>currentIndex := int (length (navItems st)) - 1\<rparr>
      in focusItem st' (currentIndex st'))"

text \<open>The four cursor operations as the keys that \<^verbatim>\<open>handleSidebarKeydown\<close> maps to them.\<close>

datatype nav_key = ArrowDown | ArrowUp | Home | End

fun navigate :: "nav_state \<Rightarrow> nav_key \<Rightarrow> nav_state" where
  "navigate st ArrowDown = navigateNext st"
| "navigate st ArrowUp = navigatePrev st"
| "navigate st Home = navigateFirst st"
| "navigate st End = navigateLast st"

definition navigate_all :: "nav_state \<Rightarrow> nav_key list \<Rightarrow> nav_state" where
  "navigate_all st keys = foldl navigate st keys"

section \<open>The debounced input handler (search script)\<close>

text \<open>
  \<^verbatim>\<open>bindEvents\<close> registers \<^verbatim>\<open>debounce(handleSearch, 150)\<close> as the \<^verbatim>\<open>input\<close> listener. The
  closure keeps the handle of its last timer in \<^verbatim>\<open>timeout\<close>. The page's timers are
  modelled with a clock that counts milliseconds: \<open>pending\<close> lists the timers that are
  set and not yet run or cleared, each with its handle and the time it is due;
  \<open>executed\<close> records every run of the callback, with the time and with the value that
  \<^verbatim>\<open>handleSearch\<close> then reads from \<^verbatim>\<open>searchInput.value\<close>. A timer runs when the clock
  reaches its due time, never before; the script runs to completion between events.
\<close>

record page_timers =
  clock :: nat
  next_handle :: nat
  pending :: "(nat \<times> nat) list"
  timeout :: "nat option"
  input_value :: string
  executed :: "(nat \<times> string) list"

definition clearTimeout :: "nat option \<Rightarrow> page_timers \<Rightarrow> page_timers" where
  "clearTimeout handle env =
     (case handle of
        None \<Rightarrow> env
      | Some i \<Rightarrow> env\<lparr>pending := filter (\<lambda>(j, due). j \<noteq> i) (pending env)\<rparr>)"

definition setTimeout :: "nat \<Rightarrow> page_timers \<Rightarrow> nat \<times> page_timers" where
  "setTimeout delay env =
     (next_handle env,
      env\<lparr>pending := pending env @ [(next_handle env, clock env + delay)],
          next_handle := next_handle env + 1\<rparr>)"

text \<open>The function that \<^verbatim>\<open>debounce(fn, delay)\<close> returns.\<close>

definition debounced :: "nat \<Rightarrow> page_timers \<Rightarrow> page_timers" where
  "debounced delay env =
     (let env1 = clearTimeout (timeout env) env;
          (handle, env2) = setTimeout delay env1
      in env2\<lparr>timeout := Some handle\<rparr>)"

text \<open>
  The timer callback \<^verbatim>\<open>() => fn.apply(this, args)\<close> with \<^verbatim>\<open>handleSearch\<close> for \<^verbatim>\<open>fn\<close>, run
  when the timer with the given handle is due.
\<close>

definition run_timer :: "nat \<times> nat \<Rightarrow> page_timers \<Rightarrow> page_timers" where
  "run_timer timer env =
     (let now = max (clock env) (snd timer)
      in env\<lparr>clock := now,
             pending := filter (\<lambda>(j, due). j \<noteq> fst timer) (pending env),
             executed := executed env @ [(now, input_value env)]\<rparr>)"

fun run_timers :: "(nat \<times> nat) list \<Rightarrow> page_timers \<Rightarrow> page_timers" where
  "run_timers [] env = env"
| "run_timers (timer # timers) env = run_timers timers (run_timer timer env)"

text \<open>Time passes until \<open>t\<close>: the timers due by then run in the order of their due times.\<close>

definition advance :: "nat \<Rightarrow> page_timers \<Rightarrow> page_timers" where
  "advance t env =
     (let due = sort_key snd (filter (\<lambda>(i, d). d \<le> t) (pending env));
          env' = run_timers due env
      in env'\<lparr>clock := max (clock env') t\<rparr>)"

text \<open>An \<^verbatim>\<open>input\<close> event at time \<open>t\<close> that leaves the value \<open>v\<close> in the search field.\<close>

definition input_event :: "nat \<Rightarrow> page_timers \<Rightarrow> nat \<times> string \<Rightarrow> page_timers" where
  "input_event delay env e = debounced delay ((advance (fst e) env)\<lparr>input_value := snd e\<rparr>)"

definition run_inputs :: "nat \<Rightarrow> page_timers \<Rightarrow> (nat \<times> string) list \<Rightarrow> page_timers" where
  "run_inputs delay env events = foldl (input_event delay) env events"

text \<open>
  Debouncing as the specification words it: an input event leads to one execution, a
  delay after it and on its value, exactly when no further event arrives within the
  delay; and a burst is a sequence of events each within the delay of the one before.
\<close>

fun spec_quiet_executions :: "nat \<Rightarrow> (nat \<times> string) list \<Rightarrow> (nat \<times> string) list" where
  "spec_quiet_executions delay [] = []"
| "spec_quiet_executions delay [e] = [(fst e + delay, snd e)]"
| "spec_quiet_executions delay (e # e' # es) =
     (if fst e + delay \<le> fst e' then [(fst e + delay, snd e)] else [])
     @ spec_quiet_executions delay (e' # es)"

fun within_window :: "nat \<Rightarrow> (nat \<times> string) list \<Rightarrow> bool" where
  "within_window delay [] = True"
| "within_window delay [e] = True"
| "within_window delay (e # e' # es) = (fst e' < fst e + delay \<and> within_window delay (e' # es))"

definition page_loaded :: page_timers where
  "page_loaded =
     \<lparr>clock = 0, next_handle = 1, pending = [], timeout = None, input_value = [], executed = []\<rparr>"

text \<open>
  Two states of the closure: its timer for the event at \<open>t\<close> on the value \<open>v\<close> is the only
  one pending; and at most one timer is pending, the one \<^verbatim>\<open>timeout\<close> names.
\<close>

definition armed :: "nat \<Rightarrow> page_timers \<Rightarrow> nat \<Rightarrow> string \<Rightarrow> bool" where
  "armed delay env t v \<longleftrightarrow>
     (\<exists>i. pending env = [(i, t + delay)] \<and> timeout env = Some i) \<and> clock env = t \<and> input_value env = v"

definition one_timer :: "page_timers \<Rightarrow> bool" where
  "one_timer env \<longleftrightarrow> pending env = [] \<or> (\<exists>i d. pending env = [(i, d)] \<and> timeout env = Some i)"

section \<open>Properties\<close>

subsection \<open>Strings\<close>

lemma startsWith_iff: "startsWith s q \<longleftrightarrow> (\<exists>post. s = q @ post)"
  by (induction s q rule: startsWith.induct) auto

lemma includes_str_iff: "includes_str s q \<longleftrightarrow> (\<exists>pre post. s = pre @ q @ post)"
proof (induction s)
  case Nil
  then show ?case by auto
next
  case (Cons c cs)
  show ?case
  proof
    assume "includes_str (c # cs) q"
    then consider "startsWith (c # cs) q" | "includes_str cs q" by auto
    then show "\<exists>pre post. c # cs = pre @ q @ post"
    proof cases
      case 1
      then obtain post where "c # cs = q @ post" by (auto simp: startsWith_iff)
      then have "c # cs = [] @ q @ post" by simp
      then show ?thesis by blast
    next
      case 2
      then obtain pre post where "cs = pre @ q @ post" using Cons.IH by auto
      then have "c # cs = (c # pre) @ q @ post" by simp
      then show ?thesis by blast
    qed
  next
    assume "\<exists>pre post. c # cs = pre @ q @ post"
    then obtain pre post where e: "c # cs = pre @ q @ post" by auto
    show "includes_str (c # cs) q"
    proof (cases pre)
      case Nil
      with e have "startsWith (c # cs) q" by (auto simp: startsWith_iff)
      then show ?thesis by simp
    next
      case (Cons p ps)
      with e have "cs = ps @ q @ post" by simp
      then have "includes_str cs q" using Cons.IH by auto
      then show ?thesis by simp
    qed
  qed
qed


lemma class_syntax: "escapeRegex_class c = syntax_character c"
  unfolding escapeRegex_class_def syntax_character_def by auto

lemma literal_atoms_plain:
  "\<not> syntax_character c \<Longrightarrow> literal_atoms (c # rest) = map_option (Cons c) (literal_atoms rest)"
  by (cases rest) (auto simp: syntax_character_def)

lemma literal_atoms_escaped:
  "syntax_character c \<Longrightarrow> literal_atoms (backslash # c # rest) = map_option (Cons c) (literal_atoms rest)"
  by simp

lemma literal_atoms_escapeRegex: "literal_atoms (escapeRegex q) = Some q"
proof (induction q)
  case Nil
  then show ?case by (simp add: escapeRegex_def)
next
  case (Cons c cs)
  have step: "escapeRegex (c # cs) = (if escapeRegex_class c then [backslash, c] else [c]) @ escapeRegex cs"
    by (simp add: escapeRegex_def)
  show ?case
  proof (cases "syntax_character c")
    case True
    then show ?thesis using Cons.IH step literal_atoms_escaped[OF True, of "escapeRegex cs"]
      by (simp add: class_syntax)
  next
    case False
    then show ?thesis using Cons.IH step literal_atoms_plain[OF False, of "escapeRegex cs"]
      by (simp add: class_syntax)
  qed
qed

lemma regexp_literal_escapeRegex:
  "regexp_literal (CHR ''('' # escapeRegex q @ '')'') = Some q"
  by (simp add: regexp_literal_def literal_atoms_escapeRegex)

lemma highlightMatch_eq:
  "highlightMatch text query =
     Inr (if query = [] then escapeHtml text else replace_marks query (escapeHtml text))"
  by (simp add: highlightMatch_def regexp_literal_escapeRegex Let_def)

lemma render_item_total:
  "\<exists>a. render_item query k item = Inr a
     \<and> anchor_href a = CHR ''#'' # item_id item \<and> anchor_index a = k"
  by (simp add: render_item_def highlightMatch_eq)

lemma render_items_total:
  "\<exists>anchors. render_items query k items = Inr anchors
     \<and> map anchor_href anchors = map (\<lambda>item. CHR ''#'' # item_id item) items
     \<and> map anchor_index anchors = [k ..< k + length items]"
proof (induction items arbitrary: k)
  case Nil
  then show ?case by simp
next
  case (Cons item items)
  obtain a where a: "render_item query k item = Inr a" "anchor_href a = CHR ''#'' # item_id item" "anchor_index a = k"
    using render_item_total by blast
  obtain rest where r: "render_items query (Suc k) items = Inr rest"
     "map anchor_href rest = map (\<lambda>item. CHR ''#'' # item_id item) items"
     "map anchor_index rest = [Suc k ..< Suc k + length items]"
    using Cons.IH by blast
  have "render_items query k (item # items) = Inr (a # rest)" using a r by simp
  moreover have "[k ..< k + Suc (length items)] = k # [Suc k ..< k + Suc (length items)]"
    by (rule upt_conv_Cons) simp
  ultimately show ?case using a r by simp
qed

lemma renderResults_total: "\<exists>r. renderResults results query = Inr r"
proof (cases "results = []")
  case True
  then show ?thesis by (simp add: renderResults_def)
next
  case False
  obtain anchors where "render_items query 0 results = Inr anchors"
    using render_items_total by blast
  then show ?thesis using False by (simp add: renderResults_def)
qed

lemma handleSearch_total: "\<exists>st'. handleSearch st = Inr st'"
proof (cases "toLowerCase (trim (st_input st)) = []")
  case True
  then show ?thesis by (simp add: handleSearch_def)
next
  case False
  obtain r where "renderResults (handleSearch_results (st_searchIndex st) (toLowerCase (trim (st_input st))))
      (toLowerCase (trim (st_input st))) = Inr r"
    using renderResults_total by blast
  then show ?thesis using False by (simp add: handleSearch_def Let_def)
qed

lemma trim_blank: "list_all is_space s \<Longrightarrow> trim s = []"
proof -
  assume "list_all is_space s"
  then have d: "dropWhile is_space s = []" by (simp add: list_all_iff dropWhile_eq_Nil_conv)
  show ?thesis unfolding trim_def d by simp
qed

lemma filter_nth_count:
  assumes "i < length xs" "P (xs ! i)"
  shows "length (filter P (take i xs)) < length (filter P xs)
         \<and> filter P xs ! length (filter P (take i xs)) = xs ! i"
proof -
  have "xs = take i xs @ xs ! i # drop (Suc i) xs"
    using assms(1) by (simp add: id_take_nth_drop)
  then have "filter P xs = filter P (take i xs) @ xs ! i # filter P (drop (Suc i) xs)"
    using assms(2) by (metis filter.simps(2) filter_append)
  then show ?thesis by (simp add: nth_append)
qed



lemma item_matches_iff: "item_matches q item \<longleftrightarrow> spec_contains_query q item"
  by (simp add: item_matches_def spec_contains_query_def includes_str_iff)

lemma handleSearch_query:
  assumes "query = toLowerCase (trim (st_input st))" and "query \<noteq> []"
  shows "\<exists>r. renderResults (handleSearch_results (st_searchIndex st) query) query = Inr r
             \<and> handleSearch st = Inr (st\<lparr>st_results := r\<rparr>)"
proof -
  obtain r where r: "renderResults (handleSearch_results (st_searchIndex st) query) query = Inr r"
    using renderResults_total by blast
  then have "handleSearch st = Inr (st\<lparr>st_results := r\<rparr>)"
    using assms by (simp add: handleSearch_def Let_def)
  with r show ?thesis by blast
qed

subsection \<open>Query results\<close>

text \<open>
  Claim C1. For a non-empty normalised query (the input trimmed and lower-cased),
  \<^verbatim>\<open>handleSearch\<close> renders the sequence \<open>handleSearch_results\<close>, and that sequence is
  exactly the records of the index whose lower-cased title or content contains the
  query, in index order and cut to the first ten: it has at most ten records; every
  returned record is a record of the index that contains the query; the record at
  position \<open>i\<close> of the index, if it contains the query and fewer than ten earlier records
  do, is returned at the position given by the number of earlier records that contain
  the query; and once ten records before position \<open>i\<close> contain the query, the records
  from \<open>i\<close> on do not change the result.
\<close>

theorem query_results_exact:
  assumes q: "query = toLowerCase (trim (st_input st))" and ne: "query \<noteq> []"
  shows "(\<exists>r. renderResults (handleSearch_results (st_searchIndex st) query) query = Inr r
              \<and> handleSearch st = Inr (st\<lparr>st_results := r\<rparr>))
       \<and> handleSearch_results (st_searchIndex st) query
           = take 10 (filter (spec_contains_query query) (st_searchIndex st))
       \<and> length (handleSearch_results (st_searchIndex st) query) \<le> 10
       \<and> (\<forall>item \<in> set (handleSearch_results (st_searchIndex st) query).
             item \<in> set (st_searchIndex st) \<and> spec_contains_query query item)
       \<and> (\<forall>i < length (st_searchIndex st).
             spec_contains_query query (st_searchIndex st ! i) \<longrightarrow>
             length (filter (spec_contains_query query) (take i (st_searchIndex st))) < 10 \<longrightarrow>
             length (filter (spec_contains_query query) (take i (st_searchIndex st)))
               < length (handleSearch_results (st_searchIndex st) query)
             \<and> handleSearch_results (st_searchIndex st) query
                 ! length (filter (spec_contains_query query) (take i (st_searchIndex st)))
               = st_searchIndex st ! i)
       \<and> (\<forall>i < length (st_searchIndex st).
             10 \<le> length (filter (spec_contains_query query) (take i (st_searchIndex st))) \<longrightarrow>
             handleSearch_results (st_searchIndex st) query
               = handleSearch_results (take i (st_searchIndex st)) query)"
proof (intro conjI allI impI ballI)
  let ?idx = "st_searchIndex st"
  have same: "item_matches query = spec_contains_query query"
    by (rule ext) (rule item_matches_iff)
  show "\<exists>r. renderResults (handleSearch_results ?idx query) query = Inr r
              \<and> handleSearch st = Inr (st\<lparr>st_results := r\<rparr>)"
    using handleSearch_query[OF q ne] .
  show "handleSearch_results ?idx query = take 10 (filter (spec_contains_query query) ?idx)"
    by (simp add: handleSearch_results_def same)
  show "length (handleSearch_results ?idx query) \<le> 10"
    by (simp add: handleSearch_results_def)
next
  fix item assume "item \<in> set (handleSearch_results (st_searchIndex st) query)"
  then have "item \<in> set (filter (item_matches query) (st_searchIndex st))"
    unfolding handleSearch_results_def by (rule in_set_takeD)
  then show "item \<in> set (st_searchIndex st)" and "spec_contains_query query item"
    by (simp_all add: item_matches_iff)
next
  fix i
  let ?idx = "st_searchIndex st"
  let ?k = "length (filter (spec_contains_query query) (take i ?idx))"
  assume i: "i < length ?idx" and c: "spec_contains_query query (?idx ! i)" and k: "?k < 10"
  have same: "item_matches query = spec_contains_query query"
    by (rule ext) (rule item_matches_iff)
  have pos: "?k < length (filter (spec_contains_query query) ?idx)
             \<and> filter (spec_contains_query query) ?idx ! ?k = ?idx ! i"
    using filter_nth_count[OF i, of "spec_contains_query query"] c by simp
  show "?k < length (handleSearch_results ?idx query)"
    using pos k by (simp add: handleSearch_results_def same)
  show "handleSearch_results ?idx query ! ?k = ?idx ! i"
    using pos k by (simp add: handleSearch_results_def same)
next
  fix i
  let ?idx = "st_searchIndex st"
  let ?P = "spec_contains_query query"
  assume "i < length ?idx" and full: "10 \<le> length (filter ?P (take i ?idx))"
  have same: "item_matches query = ?P"
    by (rule ext) (rule item_matches_iff)
  have "filter ?P ?idx = filter ?P (take i ?idx) @ filter ?P (drop i ?idx)"
    by (metis append_take_drop_id filter_append)
  then have "take 10 (filter ?P ?idx) = take 10 (filter ?P (take i ?idx))"
    using full by simp
  then show "handleSearch_results ?idx query = handleSearch_results (take i ?idx) query"
    by (simp add: handleSearch_results_def same)
qed

lemma init_intro_install_example: "init intro_install_doc = Inr [intro_item, install_item]"
  by code_simp

theorem query_results_exact_witness:
  "toLowerCase (trim ''  Install '') = ''install''
   \<and> handleSearch_results [intro_item, install_item] ''install'' = [install_item]
   \<and> spec_contains_query ''install'' install_item
   \<and> \<not> spec_contains_query ''install'' intro_item
   \<and> take 10 (filter (spec_contains_query ''config'') (map config_item ''abcdefghijklmno''))
       = map config_item ''abcdefghij''"
proof (intro conjI)
  let ?st = "\<lparr>st_searchIndex = [intro_item, install_item], st_input = ''  Install '', st_results = Blank\<rparr>"
  show q0: "toLowerCase (trim ''  Install '') = ''install''" by code_simp
  have q: "''install'' = toLowerCase (trim (st_input ?st))" using q0 by simp
  have ne: "''install'' \<noteq> []" by simp
  show r: "handleSearch_results [intro_item, install_item] ''install'' = [install_item]"
    by code_simp
  have "\<forall>item \<in> set (handleSearch_results (st_searchIndex ?st) ''install'').
          item \<in> set (st_searchIndex ?st) \<and> spec_contains_query ''install'' item"
    using query_results_exact[OF q ne] by blast
  then show "spec_contains_query ''install'' install_item" using r by simp
  have "\<not> item_matches ''install'' intro_item" by code_simp
  then show "\<not> spec_contains_query ''install'' intro_item" by (simp add: item_matches_iff)
  let ?idx = "map config_item ''abcdefghijklmno''"
  let ?st2 = "\<lparr>st_searchIndex = ?idx, st_input = ''CONFIG '', st_results = Blank\<rparr>"
  have q2: "''config'' = toLowerCase (trim (st_input ?st2))" by code_simp
  have ne2: "''config'' \<noteq> []" by simp
  have sel: "st_searchIndex ?st2 = ?idx" by simp
  have "handleSearch_results (st_searchIndex ?st2) ''config''
           = take 10 (filter (spec_contains_query ''config'') (st_searchIndex ?st2))"
    by (rule query_results_exact[OF q2 ne2, THEN conjunct2, THEN conjunct1])
  then have e: "take 10 (filter (spec_contains_query ''config'') ?idx)
           = handleSearch_results ?idx ''config''"
    unfolding sel by (rule sym)
  have "handleSearch_results ?idx ''config'' = map config_item ''abcdefghij''" by code_simp
  then show "take 10 (filter (spec_contains_query ''config'') ?idx) = map config_item ''abcdefghij''"
    unfolding e .
qed

lemma handleSearch_anchors:
  assumes "query = toLowerCase (trim (st_input st))" and "query \<noteq> []"
    and "handleSearch_results (st_searchIndex st) query \<noteq> []"
  shows "\<exists>anchors. handleSearch st = Inr (st\<lparr>st_results := ResultList anchors\<rparr>)
           \<and> map anchor_href anchors
               = map (\<lambda>item. CHR ''#'' # item_id item) (handleSearch_results (st_searchIndex st) query)
           \<and> map anchor_index anchors = [0 ..< length (handleSearch_results (st_searchIndex st) query)]"
proof -
  let ?results = "handleSearch_results (st_searchIndex st) query"
  obtain anchors where a: "render_items query 0 ?results = Inr anchors"
    "map anchor_href anchors = map (\<lambda>item. CHR ''#'' # item_id item) ?results"
    "map anchor_index anchors = [0 ..< 0 + length ?results]"
    using render_items_total by blast
  have "renderResults ?results query = Inr (ResultList anchors)"
    using a(1) assms(3) by (simp add: renderResults_def)
  then have "handleSearch st = Inr (st\<lparr>st_results := ResultList anchors\<rparr>)"
    using assms(1,2) by (simp add: handleSearch_def Let_def)
  then show ?thesis using a(2,3) by auto
qed

text \<open>
  Claim C5. For every query the result sequence has at most ten records and keeps the
  order of the index: it is a subsequence of the index, namely the matching records in
  index order with everything after the tenth dropped; when every record of an index of
  at least ten records (fifteen, say) matches, the results are exactly the first ten
  records of the index. The anchors that \<^verbatim>\<open>handleSearch\<close> renders are these results, in
  this order.
\<close>

theorem results_capped_in_index_order:
  "length (handleSearch_results idx query) \<le> 10
   \<and> subseq (handleSearch_results idx query) idx
   \<and> (\<exists>dropped. filter (item_matches query) idx = handleSearch_results idx query @ dropped
         \<and> (dropped \<noteq> [] \<longrightarrow> length (handleSearch_results idx query) = 10))
   \<and> (list_all (item_matches query) idx \<and> 10 \<le> length idx \<longrightarrow>
         handleSearch_results idx query = take 10 idx
         \<and> length (handleSearch_results idx query) = 10)
   \<and> (query = toLowerCase (trim (st_input st)) \<and> query \<noteq> []
        \<and> handleSearch_results (st_searchIndex st) query \<noteq> [] \<longrightarrow>
         (\<exists>anchors. handleSearch st = Inr (st\<lparr>st_results := ResultList anchors\<rparr>)
            \<and> length anchors \<le> 10
            \<and> map anchor_href anchors
                = map (\<lambda>item. CHR ''#'' # item_id item)
                    (handleSearch_results (st_searchIndex st) query)))"
proof (intro conjI impI)
  let ?m = "filter (item_matches query) idx"
  show "length (handleSearch_results idx query) \<le> 10"
    by (simp add: handleSearch_results_def)
  have "subseq (take 10 ?m) ?m"
    by (metis append_take_drop_id prefixI prefix_imp_subseq)
  moreover have "subseq ?m idx" by (rule subseq_filter_left)
  ultimately show "subseq (handleSearch_results idx query) idx"
    unfolding handleSearch_results_def by (rule subseq_order.trans)
  have "?m = handleSearch_results idx query @ drop 10 ?m"
    by (simp add: handleSearch_results_def)
  moreover have "drop 10 ?m \<noteq> [] \<longrightarrow> length (handleSearch_results idx query) = 10"
    by (simp add: handleSearch_results_def)
  ultimately show "\<exists>dropped. ?m = handleSearch_results idx query @ dropped
         \<and> (dropped \<noteq> [] \<longrightarrow> length (handleSearch_results idx query) = 10)"
    by blast
next
  assume a: "list_all (item_matches query) idx \<and> 10 \<le> length idx"
  then have "filter (item_matches query) idx = idx"
    by (simp add: list_all_iff)
  then show "handleSearch_results idx query = take 10 idx"
    by (simp add: handleSearch_results_def)
  then show "length (handleSearch_results idx query) = 10" using a by simp
next
  assume a: "query = toLowerCase (trim (st_input st)) \<and> query \<noteq> []
        \<and> handleSearch_results (st_searchIndex st) query \<noteq> []"
  then obtain anchors where an: "handleSearch st = Inr (st\<lparr>st_results := ResultList anchors\<rparr>)"
     "map anchor_href anchors
               = map (\<lambda>item. CHR ''#'' # item_id item) (handleSearch_results (st_searchIndex st) query)"
    using handleSearch_anchors[of query st] by blast
  have "length (map anchor_href anchors) \<le> 10"
    unfolding an(2) by (simp add: handleSearch_results_def)
  then have "length anchors \<le> 10" by simp
  with an show "\<exists>anchors. handleSearch st = Inr (st\<lparr>st_results := ResultList anchors\<rparr>)
            \<and> length anchors \<le> 10
            \<and> map anchor_href anchors
                = map (\<lambda>item. CHR ''#'' # item_id item)
                    (handleSearch_results (st_searchIndex st) query)"
    by blast
qed

lemma init_config_doc_example: "init config_doc = Inr (map config_item ''abcdefghijklmno'')"
  by code_simp

theorem results_capped_in_index_order_witness:
  "init config_doc = Inr (map config_item ''abcdefghijklmno'')
   \<and> length (map config_item ''abcdefghijklmno'') = 15
   \<and> list_all (item_matches ''config'') (map config_item ''abcdefghijklmno'')
   \<and> handleSearch_results (map config_item ''abcdefghijklmno'') ''config''
       = map config_item ''abcdefghij''
   \<and> (\<exists>anchors.
        handleSearch \<lparr>st_searchIndex = map config_item ''abcdefghijklmno'',
                      st_input = '' Config'', st_results = Blank\<rparr>
          = Inr \<lparr>st_searchIndex = map config_item ''abcdefghijklmno'',
                      st_input = '' Config'', st_results = ResultList anchors\<rparr>
        \<and> map anchor_href anchors
            = [''#sa'', ''#sb'', ''#sc'', ''#sd'', ''#se'', ''#sf'', ''#sg'', ''#sh'', ''#si'', ''#sj''])"
proof -
  let ?idx = "map config_item ''abcdefghijklmno''"
  let ?st = "\<lparr>st_searchIndex = ?idx, st_input = '' Config'', st_results = Blank\<rparr>"
  have all: "list_all (item_matches ''config'') ?idx" by code_simp
  have len: "10 \<le> length ?idx" by simp
  have q: "''config'' = toLowerCase (trim (st_input ?st))" by code_simp
  have t: "take 10 ?idx = map config_item ''abcdefghij''" by simp
  note main = results_capped_in_index_order[of ?idx "''config''" ?st]
  have "list_all (item_matches ''config'') ?idx \<and> 10 \<le> length ?idx \<longrightarrow>
         handleSearch_results ?idx ''config'' = take 10 ?idx
         \<and> length (handleSearch_results ?idx ''config'') = 10"
    using main by (elim conjE)
  then have "handleSearch_results ?idx ''config'' = take 10 ?idx"
    using all len by blast
  then have r: "handleSearch_results ?idx ''config'' = map config_item ''abcdefghij''"
    by (simp only: t)
  have sel: "st_searchIndex ?st = ?idx" by simp
  have ne: "handleSearch_results (st_searchIndex ?st) ''config'' \<noteq> []"
    unfolding sel r by simp
  have "''config'' = toLowerCase (trim (st_input ?st)) \<and> ''config'' \<noteq> []
        \<and> handleSearch_results (st_searchIndex ?st) ''config'' \<noteq> [] \<longrightarrow>
         (\<exists>anchors. handleSearch ?st = Inr (?st\<lparr>st_results := ResultList anchors\<rparr>)
            \<and> length anchors \<le> 10
            \<and> map anchor_href anchors
                = map (\<lambda>item. CHR ''#'' # item_id item)
                    (handleSearch_results (st_searchIndex ?st) ''config''))"
    using main by (elim conjE)
  moreover have "''config'' \<noteq> []" by simp
  ultimately have "\<exists>anchors. handleSearch ?st = Inr (?st\<lparr>st_results := ResultList anchors\<rparr>)
            \<and> length anchors \<le> 10
            \<and> map anchor_href anchors
                = map (\<lambda>item. CHR ''#'' # item_id item)
                    (handleSearch_results (st_searchIndex ?st) ''config'')"
    using q ne by blast
  then obtain anchors where an1: "handleSearch ?st = Inr (?st\<lparr>st_results := ResultList anchors\<rparr>)"
    and an2: "map anchor_href anchors = map (\<lambda>item. CHR ''#'' # item_id item)
                    (handleSearch_results (st_searchIndex ?st) ''config'')"
    by (elim exE conjE)
  have h: "map (\<lambda>item. CHR ''#'' # item_id item) (map config_item ''abcdefghij'')
            = [''#sa'', ''#sb'', ''#sc'', ''#sd'', ''#se'', ''#sf'', ''#sg'', ''#sh'', ''#si'', ''#sj'']"
    by (simp add: config_item_def)
  have hrefs: "map anchor_href anchors
            = [''#sa'', ''#sb'', ''#sc'', ''#sd'', ''#se'', ''#sf'', ''#sg'', ''#sh'', ''#si'', ''#sj'']"
    using an2 unfolding sel r h .
  have upd: "?st\<lparr>st_results := ResultList anchors\<rparr>
      = \<lparr>st_searchIndex = ?idx, st_input = '' Config'', st_results = ResultList anchors\<rparr>"
    by simp
  show ?thesis
  proof (intro conjI)
    show "init config_doc = Inr ?idx" by (rule init_config_doc_example)
    show "length ?idx = 15" by simp
    show "list_all (item_matches ''config'') ?idx" by (rule all)
    show "handleSearch_results ?idx ''config'' = map config_item ''abcdefghij''" by (rule r)
    show "\<exists>anchors. handleSearch ?st
          = Inr \<lparr>st_searchIndex = ?idx, st_input = '' Config'', st_results = ResultList anchors\<rparr>
        \<and> map anchor_href anchors
            = [''#sa'', ''#sb'', ''#sc'', ''#sd'', ''#se'', ''#sf'', ''#sg'', ''#sh'', ''#si'', ''#sj'']"
      using an1 hrefs unfolding upd by (intro exI[of _ anchors] conjI)
  qed
qed

subsection \<open>Blank queries\<close>

text \<open>
  Claim C6. When the input is empty or holds white space only, \<^verbatim>\<open>handleSearch\<close> sets
  the results to the empty string (\<open>Blank\<close>): neither a list of records nor the
  empty-state block. For every input and every index \<^verbatim>\<open>handleSearch\<close> returns; no input
  is an error.
\<close>

theorem blank_query_renders_nothing:
  "(list_all is_space (st_input st) \<longrightarrow> handleSearch st = Inr (st\<lparr>st_results := Blank\<rparr>))
   \<and> (\<exists>st'. handleSearch st = Inr st')"
proof
  show "list_all is_space (st_input st) \<longrightarrow> handleSearch st = Inr (st\<lparr>st_results := Blank\<rparr>)"
  proof
    assume "list_all is_space (st_input st)"
    then have "trim (st_input st) = []" by (rule trim_blank)
    then show "handleSearch st = Inr (st\<lparr>st_results := Blank\<rparr>)"
      by (simp add: handleSearch_def toLowerCase_def)
  qed
  show "\<exists>st'. handleSearch st = Inr st'" by (rule handleSearch_total)
qed

theorem blank_query_renders_nothing_witness:
  "list_all is_space [CHR '' '', CHR 0x09, CHR 0xA0, CHR 0x0A]
   \<and> handleSearch \<lparr>st_searchIndex = [intro_item, install_item],
                    st_input = [CHR '' '', CHR 0x09, CHR 0xA0, CHR 0x0A],
                    st_results = EmptyState ''x''\<rparr>
      = Inr \<lparr>st_searchIndex = [intro_item, install_item],
              st_input = [CHR '' '', CHR 0x09, CHR 0xA0, CHR 0x0A],
              st_results = Blank\<rparr>
   \<and> handleSearch \<lparr>st_searchIndex = [intro_item, install_item], st_input = [],
                    st_results = EmptyState ''x''\<rparr>
      = Inr \<lparr>st_searchIndex = [intro_item, install_item], st_input = [], st_results = Blank\<rparr>"
proof (intro conjI)
  let ?blank = "[CHR '' '', CHR 0x09, CHR 0xA0, CHR 0x0A]"
  let ?st = "\<lparr>st_searchIndex = [intro_item, install_item], st_input = ?blank,
              st_results = EmptyState ''x''\<rparr>"
  let ?empty = "\<lparr>st_searchIndex = [intro_item, install_item], st_input = [],
              st_results = EmptyState ''x''\<rparr>"
  show s: "list_all is_space ?blank" by code_simp
  have e: "st_input ?st = ?blank" by simp
  have "list_all is_space (st_input ?st)" unfolding e by (rule s)
  then have "handleSearch ?st = Inr (?st\<lparr>st_results := Blank\<rparr>)"
    using blank_query_renders_nothing[of ?st] by blast
  then show "handleSearch ?st
      = Inr \<lparr>st_searchIndex = [intro_item, install_item], st_input = ?blank, st_results = Blank\<rparr>"
    by (simp only: search_state.simps)
  have "list_all is_space (st_input ?empty)" by simp
  then have "handleSearch ?empty = Inr (?empty\<lparr>st_results := Blank\<rparr>)"
    using blank_query_renders_nothing[of ?empty] by blast
  then show "handleSearch ?empty
      = Inr \<lparr>st_searchIndex = [intro_item, install_item], st_input = [], st_results = Blank\<rparr>"
    by (simp only: search_state.simps)
qed



subsection \<open>Highlighting\<close>




subsection \<open>Regular-expression metacharacters\<close>

text \<open>
  Claim C7. A query is literal text for matching and for highlighting, whatever
  characters it holds: the pattern \<^verbatim>\<open>(escapeRegex(query))\<close> is a group of literal atoms
  that stands for the query itself, so \<^verbatim>\<open>new RegExp\<close> does not throw and
  \<^verbatim>\<open>highlightMatch\<close> returns the escaped text with the literal occurrences wrapped; a
  record matches exactly when the query occurs, code unit by code unit, as a contiguous
  part of its lower-cased title or content; and \<^verbatim>\<open>handleSearch\<close> returns for every
  input.
\<close>

theorem metacharacters_are_literal:
  "regexp_literal (''('' @ escapeRegex query @ '')'') = Some query
   \<and> highlightMatch text query
       = Inr (if query = [] then escapeHtml text else replace_marks query (escapeHtml text))
   \<and> (item_matches query item \<longleftrightarrow> spec_contains_query query item)
   \<and> (\<exists>st'. handleSearch st = Inr st')"
proof (intro conjI)
  have "''('' @ escapeRegex query @ '')'' = CHR ''('' # escapeRegex query @ '')''" by simp
  then show "regexp_literal (''('' @ escapeRegex query @ '')'') = Some query"
    by (simp only: regexp_literal_escapeRegex)
  show "highlightMatch text query
       = Inr (if query = [] then escapeHtml text else replace_marks query (escapeHtml text))"
    by (rule highlightMatch_eq)
  show "item_matches query item \<longleftrightarrow> spec_contains_query query item"
    by (rule item_matches_iff)
  show "\<exists>st'. handleSearch st = Inr st'" by (rule handleSearch_total)
qed

lemma metacharacters_example:
  "escapeRegex ''a.b*'' = [CHR ''a'', backslash, CHR ''.'', CHR ''b'', backslash, CHR ''*'']
   \<and> \<not> item_matches ''a.b*'' (install_item\<lparr>item_title := ''axbb''\<rparr>)
   \<and> item_matches ''a.b*'' (install_item\<lparr>item_title := ''see A.B* here''\<rparr>)
   \<and> highlightMatch ''axbb or A.b*'' ''a.b*'' = Inr ''axbb or <mark>A.b*</mark>''"
  by code_simp

lemma index_link_present:
  "list_ex (\<lambda>item. item_id item = i) idx \<Longrightarrow> link_href link = Some (CHR ''#'' # i) \<Longrightarrow>
     index_link doc idx link = idx"
  by (simp add: index_link_def)

lemma index_link_ids:
  "\<exists>added. map item_id (index_link doc idx link) = map item_id idx @ added
      \<and> distinct added \<and> set added \<inter> set (map item_id idx) = {}
      \<and> (\<exists>new. index_link doc idx link = idx @ new \<and> (\<forall>x \<in> set new. item_content x = []))"
proof (cases "index_link doc idx link = idx")
  case True
  then have "map item_id (index_link doc idx link) = map item_id idx @ []
      \<and> distinct ([]::string list) \<and> set ([]::string list) \<inter> set (map item_id idx) = {}
      \<and> index_link doc idx link = idx @ [] \<and> (\<forall>x \<in> set ([]::search_item list). item_content x = [])"
    by simp
  then show ?thesis by blast
next
  case False
  then obtain href where h: "link_href link = Some href"
    and n: "\<not> list_ex (\<lambda>item. item_id item = drop 1 href) idx"
    and e: "index_link doc idx link
              = idx @ [\<lparr>item_id = drop 1 href, item_title = trim (link_text link),
                          item_content = [],
                          item_section = (case link_group link of Some (Some t) \<Rightarrow> t | _ \<Rightarrow> []),
                          item_element = getElementById doc (drop 1 href)\<rparr>]"
    by (auto simp: index_link_def Let_def split: option.splits if_splits)
  let ?new = "\<lparr>item_id = drop 1 href, item_title = trim (link_text link),
                          item_content = [],
                          item_section = (case link_group link of Some (Some t) \<Rightarrow> t | _ \<Rightarrow> []),
                          item_element = getElementById doc (drop 1 href)\<rparr>"
  have "drop 1 href \<notin> set (map item_id idx)" using n by (auto simp: list_ex_iff)
  then have "map item_id (index_link doc idx link) = map item_id idx @ [drop 1 href]
      \<and> distinct [drop 1 href] \<and> set [drop 1 href] \<inter> set (map item_id idx) = {}
      \<and> index_link doc idx link = idx @ [?new] \<and> (\<forall>x \<in> set [?new]. item_content x = [])"
    using e by simp
  then show ?thesis by blast
qed

lemma foldl_index_link_ids:
  "\<exists>added new. map item_id (foldl (index_link doc) idx links) = map item_id idx @ added
      \<and> distinct added \<and> set added \<inter> set (map item_id idx) = {}
      \<and> foldl (index_link doc) idx links = idx @ new \<and> (\<forall>x \<in> set new. item_content x = [])"
proof (induction links arbitrary: idx)
  case Nil
  have "map item_id (foldl (index_link doc) idx []) = map item_id idx @ []
      \<and> distinct ([]::string list) \<and> set ([]::string list) \<inter> set (map item_id idx) = {}
      \<and> foldl (index_link doc) idx [] = idx @ [] \<and> (\<forall>x \<in> set ([]::search_item list). item_content x = [])"
    by simp
  then show ?case by blast
next
  case (Cons link links)
  let ?mid = "index_link doc idx link"
  obtain a1 n1 where 1: "map item_id ?mid = map item_id idx @ a1" "distinct a1"
     "set a1 \<inter> set (map item_id idx) = {}" "?mid = idx @ n1" "\<forall>x \<in> set n1. item_content x = []"
    using index_link_ids[of doc idx link] by blast
  obtain a2 n2 where 2: "map item_id (foldl (index_link doc) ?mid links) = map item_id ?mid @ a2"
     "distinct a2" "set a2 \<inter> set (map item_id ?mid) = {}"
     "foldl (index_link doc) ?mid links = ?mid @ n2" "\<forall>x \<in> set n2. item_content x = []"
    using Cons.IH[of ?mid] by blast
  have unf: "foldl (index_link doc) idx (link # links) = foldl (index_link doc) ?mid links" by simp
  have "map item_id (foldl (index_link doc) idx (link # links)) = map item_id idx @ (a1 @ a2)"
    unfolding unf 2(1) 1(1) by simp
  moreover have "distinct (a1 @ a2)" using 1(2) 2(2) 2(3) unfolding 1(1) by auto
  moreover have "set (a1 @ a2) \<inter> set (map item_id idx) = {}" using 1(3) 2(3) unfolding 1(1) by auto
  moreover have "foldl (index_link doc) idx (link # links) = idx @ (n1 @ n2)"
    unfolding unf 2(4) using 1(4) by simp
  moreover have "\<forall>x \<in> set (n1 @ n2). item_content x = []" using 1(5) 2(5) by auto
  ultimately show ?case by blast
qed

lemma index_section_added:
  "index_section doc idx s = Inr idx' \<Longrightarrow>
     \<exists>added. idx' = idx @ added
        \<and> map item_content added = map section_content (filter section_indexed [s])
        \<and> map item_title added = map section_title (filter section_indexed [s])
        \<and> map item_id added = map element_id (filter section_indexed [s])"
  by (cases "findParentSection doc s")
     (auto simp: index_section_def section_indexed_def Let_def split: if_splits)

lemma forEach_section_added:
  "forEach_section doc secs idx = Inr idx' \<Longrightarrow>
     \<exists>added. idx' = idx @ added
        \<and> map item_content added = map section_content (filter section_indexed secs)
        \<and> map item_title added = map section_title (filter section_indexed secs)
        \<and> map item_id added = map element_id (filter section_indexed secs)"
proof (induction secs arbitrary: idx)
  case Nil
  then show ?case by simp
next
  case (Cons s secs)
  from Cons.prems obtain mid where
    m: "index_section doc idx s = Inr mid" and r: "forEach_section doc secs mid = Inr idx'"
    by (auto split: sum.splits)
  obtain a1 where 1: "mid = idx @ a1"
     "map item_content a1 = map section_content (filter section_indexed [s])"
     "map item_title a1 = map section_title (filter section_indexed [s])"
     "map item_id a1 = map element_id (filter section_indexed [s])"
    using index_section_added[OF m] by blast
  obtain a2 where 2: "idx' = mid @ a2"
     "map item_content a2 = map section_content (filter section_indexed secs)"
     "map item_title a2 = map section_title (filter section_indexed secs)"
     "map item_id a2 = map element_id (filter section_indexed secs)"
    using Cons.IH[OF r] by blast
  have split: "filter section_indexed (s # secs) = filter section_indexed [s] @ filter section_indexed secs"
    by simp
  have "idx' = idx @ (a1 @ a2)" using 1(1) 2(1) by simp
  moreover have "map item_content (a1 @ a2) = map section_content (filter section_indexed (s # secs))"
    unfolding split using 1(2) 2(2) by simp
  moreover have "map item_title (a1 @ a2) = map section_title (filter section_indexed (s # secs))"
    unfolding split using 1(3) 2(3) by simp
  moreover have "map item_id (a1 @ a2) = map element_id (filter section_indexed (s # secs))"
    unfolding split using 1(4) 2(4) by simp
  ultimately show ?case by blast
qed

lemma buildSearchIndex_shape:
  assumes "buildSearchIndex doc idx0 = Inr idx"
  shows "\<exists>secs links added. idx = idx0 @ secs @ links
     \<and> map item_content secs = map section_content (filter section_indexed (doc_sections doc))
     \<and> map item_title secs = map section_title (filter section_indexed (doc_sections doc))
     \<and> map item_id secs = map element_id (filter section_indexed (doc_sections doc))
     \<and> (\<forall>x \<in> set links. item_content x = [])
     \<and> map item_id links = added \<and> distinct added
     \<and> set added \<inter> set (map item_id (idx0 @ secs)) = {}"
proof -
  from assms obtain mid where
    m: "forEach_section doc (doc_sections doc) idx0 = Inr mid"
    and i: "idx = foldl (index_link doc) mid (sidebar_links doc)"
    by (auto simp: buildSearchIndex_def split: sum.splits)
  obtain secs where s: "mid = idx0 @ secs"
     "map item_content secs = map section_content (filter section_indexed (doc_sections doc))"
     "map item_title secs = map section_title (filter section_indexed (doc_sections doc))"
     "map item_id secs = map element_id (filter section_indexed (doc_sections doc))"
    using forEach_section_added[OF m] by blast
  obtain added links where l: "map item_id idx = map item_id mid @ added" "distinct added"
     "set added \<inter> set (map item_id mid) = {}" "idx = mid @ links" "\<forall>x \<in> set links. item_content x = []"
    unfolding i using foldl_index_link_ids[of doc mid "sidebar_links doc"] by blast
  have ids: "map item_id links = added" using l(1) l(4) by simp
  have whole: "idx = idx0 @ secs @ links" using l(4) s(1) by simp
  have disj: "set added \<inter> set (map item_id (idx0 @ secs)) = {}" using l(3) s(1) by simp
  show ?thesis
    using whole s(2) s(3) s(4) l(5) ids l(2) disj
    by (intro exI[of _ secs] exI[of _ links] exI[of _ added] conjI)
qed

subsection \<open>Truncation\<close>

text \<open>
  Claim C8. When \<^verbatim>\<open>buildSearchIndex\<close> returns, the index is the one it found, then one
  record for each section with a non-empty title or content, in page order, then the
  records of the sidebar loop. The content of a section's record is the concatenation
  of the child texts (each behind a space), trimmed, and cut to its first 500 code
  units: at most 500 and nothing appended; the content of a sidebar record is empty.
  The excerpt truncation of rendering, \<^verbatim>\<open>truncate(content, 150)\<close>, appends three dots
  exactly when the text is longer than 150 and returns the text unchanged otherwise; the
  rendered excerpt is the highlighting of this truncated content.
\<close>

theorem content_cut_and_excerpt_ellipsis:
  "section_text section = concat (map (\<lambda>el. '' '' @ el) (sec_texts section))
   \<and> section_content section = take 500 (trim (section_text section))
   \<and> length (section_content section) = min 500 (length (trim (section_text section)))
   \<and> (buildSearchIndex doc idx0 = Inr idx \<longrightarrow>
        (\<exists>secs links. idx = idx0 @ secs @ links
           \<and> map item_content secs
               = map (\<lambda>s. take 500 (trim (concat (map (\<lambda>el. '' '' @ el) (sec_texts s)))))
                   (filter section_indexed (doc_sections doc))
           \<and> (\<forall>x \<in> set secs. length (item_content x) \<le> 500)
           \<and> (\<forall>x \<in> set links. item_content x = [])))
   \<and> (index_section doc idx section = Inr idx' \<longrightarrow>
        (if section_title section \<noteq> [] \<or> section_content section \<noteq> []
         then \<exists>parent. idx' = idx @ [\<lparr>item_id = element_id section,
                  item_title = section_title section,
                  item_content = section_content section,
                  item_section = parent, item_element = Some (sec_node section)\<rparr>]
         else idx' = idx))
   \<and> truncate_str text 150 = (if 150 < length text then take 150 text @ ''...'' else text)
   \<and> (render_item query k item = Inr a \<longrightarrow>
        map_option Inr (anchor_excerpt a)
          = (if item_content item \<noteq> []
             then Some (highlightMatch (truncate_str (item_content item) 150) query)
             else None))"
proof (intro conjI impI)
  have fold: "foldl (\<lambda>content el. content @ '' '' @ el) acc els
                = acc @ concat (map (\<lambda>el. '' '' @ el) els)" for acc els
    by (induction els arbitrary: acc) simp_all
  have tx: "section_text s = concat (map (\<lambda>el. '' '' @ el) (sec_texts s))" for s
    unfolding section_text_def using fold[of "[]"] by simp
  have cut: "section_content s = take 500 (trim (section_text s))" for s
    by (simp add: section_content_def substring0_def)
  show "section_text section = concat (map (\<lambda>el. '' '' @ el) (sec_texts section))"
    by (rule tx)
  show "section_content section = take 500 (trim (section_text section))"
    by (rule cut)
  show "length (section_content section) = min 500 (length (trim (section_text section)))"
    by (simp add: section_content_def substring0_def min.commute)
  have explicit: "section_content = (\<lambda>s. take 500 (trim (concat (map (\<lambda>el. '' '' @ el) (sec_texts s)))))"
    by (rule ext) (simp add: cut tx)
  assume "buildSearchIndex doc idx0 = Inr idx"
  then obtain secs links where sh: "idx = idx0 @ secs @ links"
    "map item_content secs = map section_content (filter section_indexed (doc_sections doc))"
    "\<forall>x \<in> set links. item_content x = []"
    using buildSearchIndex_shape[of doc idx0 idx] by blast
  have bound: "\<forall>x \<in> set secs. length (item_content x) \<le> 500"
  proof
    fix x assume "x \<in> set secs"
    then have "item_content x \<in> set (map item_content secs)" by simp
    then obtain s where "item_content x = section_content s" unfolding sh(2) by auto
    then show "length (item_content x) \<le> 500" by (simp add: cut)
  qed
  have "map item_content secs
               = map (\<lambda>s. take 500 (trim (concat (map (\<lambda>el. '' '' @ el) (sec_texts s)))))
                   (filter section_indexed (doc_sections doc))"
    using sh(2) unfolding explicit .
  then show "\<exists>secs links. idx = idx0 @ secs @ links
           \<and> map item_content secs
               = map (\<lambda>s. take 500 (trim (concat (map (\<lambda>el. '' '' @ el) (sec_texts s)))))
                   (filter section_indexed (doc_sections doc))
           \<and> (\<forall>x \<in> set secs. length (item_content x) \<le> 500)
           \<and> (\<forall>x \<in> set links. item_content x = [])"
    using sh(1) bound sh(3) by blast
next
  assume b: "index_section doc idx section = Inr idx'"
  show "if section_title section \<noteq> [] \<or> section_content section \<noteq> []
        then \<exists>parent. idx' = idx @ [\<lparr>item_id = element_id section,
                  item_title = section_title section,
                  item_content = section_content section,
                  item_section = parent, item_element = Some (sec_node section)\<rparr>]
        else idx' = idx"
  proof (cases "section_title section \<noteq> [] \<or> section_content section \<noteq> []")
    case True
    then show ?thesis using b
      by (cases "findParentSection doc section") (auto simp: index_section_def Let_def)
  next
    case False
    then show ?thesis using b by (auto simp: index_section_def Let_def)
  qed
next
  show "truncate_str text 150 = (if 150 < length text then take 150 text @ ''...'' else text)"
    by (simp add: truncate_str_def substring0_def)
next
  assume r: "render_item query k item = Inr a"
  obtain title where t: "highlightMatch (item_title item) query = Inr title"
    by (simp add: highlightMatch_eq)
  obtain ex where e: "highlightMatch (truncate_str (item_content item) 150) query = Inr ex"
    by (simp add: highlightMatch_eq)
  show "map_option Inr (anchor_excerpt a)
          = (if item_content item \<noteq> []
             then Some (highlightMatch (truncate_str (item_content item) 150) query)
             else None)"
    using r t e by (auto simp: render_item_def)
qed

lemma long_doc_example: "init long_doc = Inr [long_item, faq_item]"
  by code_simp

theorem content_cut_and_excerpt_ellipsis_witness:
  "init long_doc = Inr [long_item, faq_item]
   \<and> length (trim (section_text long_section)) = 601
   \<and> item_content long_item
       = take 500 (trim (concat (map (\<lambda>el. '' '' @ el) (sec_texts long_section))))
   \<and> length (item_content long_item) = 500
   \<and> truncate_str (item_content long_item) 150 = replicate 150 (CHR ''a'') @ ''...''
   \<and> truncate_str ''Run the installer'' 150 = ''Run the installer''"
proof (intro conjI)
  let ?cut = "\<lambda>s. take 500 (trim (concat (map (\<lambda>el. '' '' @ el) (sec_texts s))))"
  note main = content_cut_and_excerpt_ellipsis[of long_section long_doc "[]" "[long_item, faq_item]"]
  show b: "init long_doc = Inr [long_item, faq_item]" by (rule long_doc_example)
  then have build: "buildSearchIndex long_doc [] = Inr [long_item, faq_item]"
    by (simp add: init_def)
  show len: "length (trim (section_text long_section)) = 601" by code_simp
  have kept: "filter section_indexed (doc_sections long_doc) = [long_section]" by code_simp
  have "buildSearchIndex long_doc [] = Inr [long_item, faq_item] \<longrightarrow>
        (\<exists>secs links. [long_item, faq_item] = [] @ secs @ links
           \<and> map item_content secs = map ?cut (filter section_indexed (doc_sections long_doc))
           \<and> (\<forall>x \<in> set secs. length (item_content x) \<le> 500)
           \<and> (\<forall>x \<in> set links. item_content x = []))"
    by (rule main[THEN conjunct2, THEN conjunct2, THEN conjunct2, THEN conjunct1])
  then obtain secs links where whole: "[long_item, faq_item] = [] @ secs @ links"
    and contents: "map item_content secs = map ?cut (filter section_indexed (doc_sections long_doc))"
    using build by blast
  have one: "map item_content secs = [?cut long_section]" using contents unfolding kept by simp
  then obtain x where x: "secs = [x]" by auto
  then have "x = long_item" using whole by simp
  then show ic: "item_content long_item = ?cut long_section" using one x by simp
  have tx: "section_text long_section = concat (map (\<lambda>el. '' '' @ el) (sec_texts long_section))"
    by (rule main[THEN conjunct1])
  show "length (item_content long_item) = 500" unfolding ic tx[symmetric] using len by simp
  have "truncate_str (item_content long_item) 150
          = (if 150 < length (item_content long_item) then take 150 (item_content long_item) @ ''...''
             else item_content long_item)"
    by (rule content_cut_and_excerpt_ellipsis[THEN conjunct2, THEN conjunct2, THEN conjunct2,
          THEN conjunct2, THEN conjunct2, THEN conjunct1])
  moreover have "length (item_content long_item) = 500" by code_simp
  moreover have "take 150 (item_content long_item) = replicate 150 (CHR ''a'')" by code_simp
  ultimately show "truncate_str (item_content long_item) 150 = replicate 150 (CHR ''a'') @ ''...''"
    by simp
  have "truncate_str ''Run the installer'' 150
          = (if 150 < length ''Run the installer'' then take 150 ''Run the installer'' @ ''...''
             else ''Run the installer'')"
    by (rule content_cut_and_excerpt_ellipsis[THEN conjunct2, THEN conjunct2, THEN conjunct2,
          THEN conjunct2, THEN conjunct2, THEN conjunct1])
  then show "truncate_str ''Run the installer'' 150 = ''Run the installer''" by simp
qed

subsection \<open>Record ids\<close>

text \<open>
  Claim C3 fails as stated. Two sections with a heading and no \<^verbatim>\<open>id\<close> attribute both
  yield a record with the empty id: the section loop pushes without looking for the id
  in the index.
\<close>

theorem duplicate_ids_counterexample:
  "init no_id_doc = Inr [overview_item, details_item]
   \<and> map item_id [overview_item, details_item] = ['''', '''']
   \<and> \<not> distinct (map item_id [overview_item, details_item])"
proof (intro conjI)
  show "init no_id_doc = Inr [overview_item, details_item]" by code_simp
  show ids: "map item_id [overview_item, details_item] = ['''', '''']"
    by (simp add: overview_item_def details_item_def)
  show "\<not> distinct (map item_id [overview_item, details_item])" unfolding ids by simp
qed

text \<open>
  Claim C3, as the code has it. After \<^verbatim>\<open>init\<close> (a build on the empty index) has returned,
  the record ids are the ids of the sections that the builder keeps, the absent id
  counting as the empty string, followed by the ids that the sidebar loop adds, which
  are distinct from each other and from the section ids. So the record ids are pairwise
  distinct exactly when the kept sections have pairwise distinct ids: two kept sections
  with the same id, empty or not, yield two records with that id. A link whose target
  id is already in the index leaves the index as it is (first write wins).
\<close>

theorem ids_distinct_for_distinct_sections:
  assumes "init doc = Inr idx"
  shows "(distinct (map item_id idx)
           \<longleftrightarrow> distinct (map element_id (filter section_indexed (doc_sections doc))))
    \<and> (\<exists>added. map item_id idx
                   = map element_id (filter section_indexed (doc_sections doc)) @ added
          \<and> distinct added
          \<and> set added \<inter> set (map element_id (filter section_indexed (doc_sections doc))) = {})
    \<and> (list_ex (\<lambda>item. item_id item = i) idx0 \<and> link_href link = Some (CHR ''#'' # i)
         \<longrightarrow> index_link doc idx0 link = idx0)"
proof (intro conjI)
  let ?kept = "map element_id (filter section_indexed (doc_sections doc))"
  have "buildSearchIndex doc [] = Inr idx" using assms by (simp add: init_def)
  then obtain secs links added where sh: "idx = [] @ secs @ links" "map item_id secs = ?kept"
    "map item_id links = added" "distinct added" "set added \<inter> set (map item_id ([] @ secs)) = {}"
    using buildSearchIndex_shape[of doc "[]" idx] by blast
  have ids: "map item_id idx = ?kept @ added" using sh(1,2,3) by simp
  have disj: "set added \<inter> set ?kept = {}" using sh(2,5) by simp
  show "distinct (map item_id idx) \<longleftrightarrow> distinct ?kept"
    unfolding ids using sh(4) disj by auto
  show "\<exists>added. map item_id idx = ?kept @ added \<and> distinct added \<and> set added \<inter> set ?kept = {}"
    using ids sh(4) disj by blast
  show "list_ex (\<lambda>item. item_id item = i) idx0 \<and> link_href link = Some (CHR ''#'' # i)
         \<longrightarrow> index_link doc idx0 link = idx0"
    using index_link_present by blast
qed

theorem ids_distinct_for_distinct_sections_witness:
  "init faq_doc = Inr faq_index
   \<and> map element_id (filter section_indexed (doc_sections faq_doc)) = [''intro'', ''install'']
   \<and> distinct (map item_id faq_index)
   \<and> index_link faq_doc faq_index install_link = faq_index
   \<and> handleSearch_results faq_index ''faq'' = [faq_index ! 2]
   \<and> init same_id_doc = Inr [setup_item 1 ''Setup'', setup_item 2 ''More setup'']
   \<and> \<not> distinct (map item_id [setup_item 1 ''Setup'', setup_item 2 ''More setup''])"
proof (intro conjI)
  show b: "init faq_doc = Inr faq_index" by code_simp
  show s: "map element_id (filter section_indexed (doc_sections faq_doc)) = [''intro'', ''install'']"
    by code_simp
  have d: "distinct (map element_id (filter section_indexed (doc_sections faq_doc)))"
    unfolding s by simp
  note main = ids_distinct_for_distinct_sections[OF b]
  show "distinct (map item_id faq_index)" using main[THEN conjunct1] d by blast
  have e: "list_ex (\<lambda>item. item_id item = ''install'') faq_index" by code_simp
  have h: "link_href install_link = Some (CHR ''#'' # ''install'')" by code_simp
  show "index_link faq_doc faq_index install_link = faq_index"
    using main[THEN conjunct2, THEN conjunct2, of "''install''" faq_index install_link] e h by blast
  show "handleSearch_results faq_index ''faq'' = [faq_index ! 2]" by code_simp
  show b2: "init same_id_doc = Inr [setup_item 1 ''Setup'', setup_item 2 ''More setup'']"
    by code_simp
  have s2: "map element_id (filter section_indexed (doc_sections same_id_doc)) = [''setup'', ''setup'']"
    by code_simp
  have "\<not> distinct (map element_id (filter section_indexed (doc_sections same_id_doc)))"
    unfolding s2 by simp
  then show "\<not> distinct (map item_id [setup_item 1 ''Setup'', setup_item 2 ''More setup''])"
    using ids_distinct_for_distinct_sections[OF b2, THEN conjunct1] by blast
qed

lemma backslash_id_example:
  "init backslash_doc
     = Inr [\<lparr>item_id = [CHR ''a'', backslash, CHR ''b''], item_title = ''Escapes'',
             item_content = [], item_section = [], item_element = Some 1\<rparr>]"
  by code_simp

subsection \<open>Re-indexing\<close>

text \<open>
  Claim C2, evaluated. \<^verbatim>\<open>reindex\<close> is \<^verbatim>\<open>buildSearchIndex\<close>, which pushes onto the array it
  finds: on the page of the first scenario the first build gives two records, and a
  second build on the unchanged page gives four, the two section records twice.
\<close>

theorem reindex_appends_sections_again:
  "init intro_install_doc = Inr [intro_item, install_item]
   \<and> reindex intro_install_doc [intro_item, install_item]
       = Inr [intro_item, install_item, intro_item, install_item]
   \<and> reindex intro_install_doc [intro_item, install_item] \<noteq> init intro_install_doc"
proof -
  have a: "init intro_install_doc = Inr [intro_item, install_item]" by code_simp
  have b: "reindex intro_install_doc [intro_item, install_item]
       = Inr [intro_item, install_item, intro_item, install_item]" by code_simp
  show ?thesis unfolding a b by simp
qed

lemma focusItem_fields [simp]:
  "currentIndex (focusItem st i) = currentIndex st" "navItems (focusItem st i) = navItems st"
  by (simp_all add: focusItem_def)

lemma navigate_in_range:
  assumes "0 \<le> currentIndex st" "currentIndex st \<le> int (length (navItems st)) - 1"
  shows "0 \<le> currentIndex (navigate st key)
         \<and> currentIndex (navigate st key) \<le> int (length (navItems (navigate st key))) - 1
         \<and> navItems (navigate st key) = navItems st"
  using assms
  by (cases key) (auto simp: navigateNext_def navigatePrev_def navigateFirst_def navigateLast_def Let_def)

lemma navigate_all_in_range:
  assumes "0 \<le> currentIndex st" "currentIndex st \<le> int (length (navItems st)) - 1"
  shows "0 \<le> currentIndex (navigate_all st keys)
         \<and> currentIndex (navigate_all st keys) \<le> int (length (navItems st)) - 1
         \<and> navItems (navigate_all st keys) = navItems st"
  using assms
proof (induction keys arbitrary: st)
  case Nil
  then show ?case by (simp add: navigate_all_def)
next
  case (Cons key keys)
  let ?st = "navigate st key"
  have step: "0 \<le> currentIndex ?st \<and> currentIndex ?st \<le> int (length (navItems ?st)) - 1
         \<and> navItems ?st = navItems st"
    using navigate_in_range[OF Cons.prems] .
  then have lo: "0 \<le> currentIndex ?st" and hi: "currentIndex ?st \<le> int (length (navItems ?st)) - 1"
    and same: "navItems ?st = navItems st"
    by blast+
  have unfold: "navigate_all st (key # keys) = navigate_all ?st keys"
    by (simp add: navigate_all_def)
  show ?case unfolding unfold using Cons.IH[OF lo hi] unfolding same .
qed

subsection \<open>Keyboard navigation\<close>

text \<open>
  Claim C10. With a non-empty item list and the cursor between \<open>0\<close> and
  \<open>length navItems - 1\<close>, every sequence of the four cursor operations leaves the cursor
  in this range and the item list as it was. At the boundaries the operations change
  nothing: \<^verbatim>\<open>navigateNext\<close> when the cursor is at \<open>length navItems - 1\<close>,
  \<^verbatim>\<open>navigatePrev\<close> when it is \<open>0\<close> or below; \<^verbatim>\<open>navigateFirst\<close> sets it to \<open>0\<close> and
  \<^verbatim>\<open>navigateLast\<close> to \<open>length navItems - 1\<close>.
\<close>

theorem cursor_stays_in_range:
  assumes "navItems st \<noteq> []"
    and "0 \<le> currentIndex st" and "currentIndex st \<le> int (length (navItems st)) - 1"
  shows "0 \<le> currentIndex (navigate_all st keys)
     \<and> currentIndex (navigate_all st keys) \<le> int (length (navItems st)) - 1
     \<and> navItems (navigate_all st keys) = navItems st
     \<and> (currentIndex s = int (length (navItems s)) - 1 \<longrightarrow> navigateNext s = s)
     \<and> (currentIndex s \<le> 0 \<longrightarrow> navigatePrev s = s)
     \<and> currentIndex (navigateFirst s) = 0
     \<and> currentIndex (navigateLast s) = int (length (navItems s)) - 1"
proof (intro conjI)
  note r = navigate_all_in_range[OF assms(2,3), of keys]
  show "0 \<le> currentIndex (navigate_all st keys)" using r by blast
  show "currentIndex (navigate_all st keys) \<le> int (length (navItems st)) - 1" using r by blast
  show "navItems (navigate_all st keys) = navItems st" using r by blast
  show "currentIndex s = int (length (navItems s)) - 1 \<longrightarrow> navigateNext s = s"
    by (simp add: navigateNext_def)
  show "currentIndex s \<le> 0 \<longrightarrow> navigatePrev s = s"
    by (simp add: navigatePrev_def)
  show "currentIndex (navigateFirst s) = 0" by (simp add: navigateFirst_def Let_def)
  show "currentIndex (navigateLast s) = int (length (navItems s)) - 1"
    by (simp add: navigateLast_def Let_def)
qed

theorem cursor_stays_in_range_witness:
  "navigate_all \<lparr>navItems = [10, 11, 12], currentIndex = 1, focused = None\<rparr>
       [ArrowDown, ArrowDown, ArrowDown, ArrowUp, Home, ArrowUp, End, ArrowDown]
     = \<lparr>navItems = [10, 11, 12], currentIndex = 2, focused = Some 12\<rparr>
   \<and> 0 \<le> currentIndex (navigate_all \<lparr>navItems = [10, 11, 12], currentIndex = 1, focused = None\<rparr>
       [ArrowDown, ArrowDown, ArrowDown, ArrowUp, Home, ArrowUp, End, ArrowDown])
   \<and> currentIndex (navigate_all \<lparr>navItems = [10, 11, 12], currentIndex = 1, focused = None\<rparr>
       [ArrowDown, ArrowDown, ArrowDown, ArrowUp, Home, ArrowUp, End, ArrowDown]) \<le> 2
   \<and> navigateNext \<lparr>navItems = [10, 11, 12], currentIndex = 2, focused = Some 12\<rparr>
     = \<lparr>navItems = [10, 11, 12], currentIndex = 2, focused = Some 12\<rparr>
   \<and> navigatePrev \<lparr>navItems = [10, 11, 12], currentIndex = 0, focused = Some 10\<rparr>
     = \<lparr>navItems = [10, 11, 12], currentIndex = 0, focused = Some 10\<rparr>"
proof (intro conjI)
  let ?st = "\<lparr>navItems = [10, 11, 12], currentIndex = 1, focused = None\<rparr>"
  let ?keys = "[ArrowDown, ArrowDown, ArrowDown, ArrowUp, Home, ArrowUp, End, ArrowDown]"
  let ?top = "\<lparr>navItems = [10, 11, 12], currentIndex = 2, focused = Some 12\<rparr>"
  let ?bottom = "\<lparr>navItems = [10, 11, 12], currentIndex = 0, focused = Some 10\<rparr>"
  have ne: "navItems ?st \<noteq> []" by simp
  have lo: "0 \<le> currentIndex ?st" by simp
  have hi: "currentIndex ?st \<le> int (length (navItems ?st)) - 1" by simp
  note main = cursor_stays_in_range[OF ne lo hi]
  show "navigate_all ?st ?keys = ?top" by code_simp
  show "0 \<le> currentIndex (navigate_all ?st ?keys)" by (rule main[THEN conjunct1])
  have "currentIndex (navigate_all ?st ?keys) \<le> int (length (navItems ?st)) - 1"
    by (rule main[THEN conjunct2, THEN conjunct1])
  then show "currentIndex (navigate_all ?st ?keys) \<le> 2" by simp
  have "currentIndex ?top = int (length (navItems ?top)) - 1 \<longrightarrow> navigateNext ?top = ?top"
    by (rule main[THEN conjunct2, THEN conjunct2, THEN conjunct2, THEN conjunct1])
  then show "navigateNext ?top = ?top" by simp
  have "currentIndex ?bottom \<le> 0 \<longrightarrow> navigatePrev ?bottom = ?bottom"
    by (rule main[THEN conjunct2, THEN conjunct2, THEN conjunct2, THEN conjunct2, THEN conjunct1])
  then show "navigatePrev ?bottom = ?bottom" by simp
qed


lemma advance_idle: "pending env = [] \<Longrightarrow> advance t env = env\<lparr>clock := max (clock env) t\<rparr>"
  by (simp add: advance_def)

lemma advance_armed_early:
  "pending env = [(i, d)] \<Longrightarrow> t < d \<Longrightarrow> advance t env = env\<lparr>clock := max (clock env) t\<rparr>"
  by (simp add: advance_def)

lemma advance_armed_due:
  "pending env = [(i, d)] \<Longrightarrow> d \<le> t \<Longrightarrow>
     advance t env = env\<lparr>clock := max (max (clock env) d) t, pending := [],
                        executed := executed env @ [(max (clock env) d, input_value env)]\<rparr>"
  by (simp add: advance_def run_timer_def Let_def)

lemma input_event_idle:
  assumes "pending env = []" and "clock env \<le> fst e"
  shows "armed delay (input_event delay env e) (fst e) (snd e)
         \<and> executed (input_event delay env e) = executed env"
  using assms
  by (auto simp: input_event_def advance_idle debounced_def clearTimeout_def setTimeout_def
      armed_def Let_def max_def split: option.splits)

lemma input_event_armed:
  assumes "armed delay env t v" and "t \<le> fst e"
  shows "armed delay (input_event delay env e) (fst e) (snd e)
         \<and> executed (input_event delay env e)
             = executed env @ (if t + delay \<le> fst e then [(t + delay, v)] else [])"
proof -
  from assms(1) obtain i where p: "pending env = [(i, t + delay)]" and h: "timeout env = Some i"
    and c: "clock env = t" and v: "input_value env = v"
    by (auto simp: armed_def)
  show ?thesis
  proof (cases "t + delay \<le> fst e")
    case True
    show ?thesis using True assms(2) h c v
      by (simp add: input_event_def advance_armed_due[OF p True] debounced_def clearTimeout_def
          setTimeout_def armed_def Let_def max_def)
  next
    case False
    then have early: "fst e < t + delay" by simp
    show ?thesis using False assms(2) h c v p
      by (simp add: input_event_def advance_armed_early[OF p early] debounced_def clearTimeout_def
          setTimeout_def armed_def Let_def max_def)
  qed
qed


lemma run_inputs_Cons: "run_inputs delay env (e # es) = run_inputs delay (input_event delay env e) es"
  by (simp add: run_inputs_def)

lemma armed_run:
  assumes "armed delay env t v" and "sorted (t # map fst es)"
    and "last (t # map fst es) + delay \<le> T"
  shows "executed (advance T (run_inputs delay env es))
           = executed env @ spec_quiet_executions delay ((t, v) # es)"
  using assms
proof (induction es arbitrary: env t v)
  case Nil
  from Nil.prems(1) obtain i where p: "pending env = [(i, t + delay)]"
    and c: "clock env = t" and v: "input_value env = v"
    by (auto simp: armed_def)
  have due: "t + delay \<le> T" using Nil.prems(3) by simp
  show ?case using c v
    by (simp add: run_inputs_def advance_armed_due[OF p due] max_def)
next
  case (Cons e es)
  have le: "t \<le> fst e" using Cons.prems(2) by simp
  have srt: "sorted (fst e # map fst es)" using Cons.prems(2) by simp
  have lst: "last (fst e # map fst es) + delay \<le> T" using Cons.prems(3) by simp
  note step = input_event_armed[OF Cons.prems(1) le]
  have "executed (advance T (run_inputs delay (input_event delay env e) es))
          = executed (input_event delay env e) @ spec_quiet_executions delay ((fst e, snd e) # es)"
    using Cons.IH[OF step[THEN conjunct1] srt lst] .
  then show ?case using step[THEN conjunct2] by (simp add: run_inputs_Cons)
qed

lemma within_window_single:
  "within_window delay (e # es) \<Longrightarrow>
     spec_quiet_executions delay (e # es) = [(fst (last (e # es)) + delay, snd (last (e # es)))]"
proof (induction es arbitrary: e)
  case Nil
  then show ?case by simp
next
  case (Cons e' es)
  then have "within_window delay (e' # es)" and "\<not> fst e + delay \<le> fst e'" by auto
  then show ?case using Cons.IH[of e'] by simp
qed

lemma advance_one_timer: "one_timer env \<Longrightarrow> one_timer (advance t env) \<and> timeout (advance t env) = timeout env"
proof -
  assume "one_timer env"
  then consider "pending env = []" | i d where "pending env = [(i, d)]" "timeout env = Some i"
    by (auto simp: one_timer_def)
  then show ?thesis
  proof cases
    case 1
    then show ?thesis by (simp add: advance_idle one_timer_def)
  next
    case 2
    show ?thesis
    proof (cases "d \<le> t")
      case True
      then show ?thesis using 2 by (simp add: advance_armed_due[OF 2(1) True] one_timer_def)
    next
      case False
      then have "t < d" by simp
      then show ?thesis using 2 by (simp add: advance_armed_early[OF 2(1)] one_timer_def)
    qed
  qed
qed

lemma input_event_one_timer: "one_timer env \<Longrightarrow> one_timer (input_event delay env e)"
proof -
  assume a: "one_timer env"
  let ?a = "advance (fst e) env"
  have o: "one_timer ?a" using advance_one_timer[OF a] by blast
  then consider "pending ?a = []" | i d where "pending ?a = [(i, d)]" "timeout ?a = Some i"
    by (auto simp: one_timer_def)
  then show ?thesis
  proof cases
    case 1
    then show ?thesis
      by (auto simp: input_event_def debounced_def clearTimeout_def setTimeout_def one_timer_def
          Let_def split: option.splits)
  next
    case 2
    then show ?thesis
      by (simp add: input_event_def debounced_def clearTimeout_def setTimeout_def one_timer_def Let_def)
  qed
qed

lemma run_inputs_one_timer: "one_timer env \<Longrightarrow> one_timer (run_inputs delay env es)"
  by (induction es arbitrary: env) (simp_all add: run_inputs_Cons input_event_one_timer, simp add: run_inputs_def)


subsection \<open>Debouncing\<close>

text \<open>
  Claim C9. Input events in time order, from a state with no timer pending, lead to
  exactly the executions of the quiet periods: one for each event that no further event
  follows within 150 ms, run 150 ms after that event on the value the field then holds.
  A burst of events, each within 150 ms of the one before, therefore collapses into a
  single execution, 150 ms after the last event and on the last value; the timers of
  the earlier events are cleared before they run. At every point of the run at most one
  timer is pending, so no two executions are ever outstanding together.
\<close>

theorem debounce_collapses_bursts:
  assumes idle: "pending env = []" and now: "clock env \<le> fst e"
    and order: "sorted (map fst (e # es))" and quiet: "fst (last (e # es)) + 150 \<le> T"
  shows "executed (advance T (run_inputs 150 env (e # es)))
           = executed env @ spec_quiet_executions 150 (e # es)
    \<and> (within_window 150 (e # es) \<longrightarrow>
          executed (advance T (run_inputs 150 env (e # es)))
            = executed env @ [(fst (last (e # es)) + 150, snd (last (e # es)))])
    \<and> (\<forall>n. length (pending (run_inputs 150 env (take n (e # es)))) \<le> 1)"
proof (intro conjI impI allI)
  note first = input_event_idle[OF idle now, of 150]
  have srt: "sorted (fst e # map fst es)" using order by simp
  have "last (fst e # map fst es) = fst (last (e # es))"
    using last_map[of "e # es" fst] by simp
  then have lst: "last (fst e # map fst es) + 150 \<le> T" using quiet by simp
  have "executed (advance T (run_inputs 150 (input_event 150 env e) es))
          = executed (input_event 150 env e) @ spec_quiet_executions 150 ((fst e, snd e) # es)"
    using armed_run[OF first[THEN conjunct1] srt lst] .
  then show all: "executed (advance T (run_inputs 150 env (e # es)))
           = executed env @ spec_quiet_executions 150 (e # es)"
    using first[THEN conjunct2] by (simp add: run_inputs_Cons)
  assume "within_window 150 (e # es)"
  then have "spec_quiet_executions 150 (e # es) = [(fst (last (e # es)) + 150, snd (last (e # es)))]"
    by (rule within_window_single)
  then show "executed (advance T (run_inputs 150 env (e # es)))
            = executed env @ [(fst (last (e # es)) + 150, snd (last (e # es)))]"
    using all by simp
next
  fix n
  have "one_timer env" using idle by (simp add: one_timer_def)
  then have "one_timer (run_inputs 150 env (take n (e # es)))" by (rule run_inputs_one_timer)
  then show "length (pending (run_inputs 150 env (take n (e # es)))) \<le> 1"
    by (auto simp: one_timer_def)
qed

theorem debounce_collapses_bursts_witness:
  "executed (advance 450 (run_inputs 150 page_loaded [(100, ''i''), (180, ''in''), (300, ''ins'')]))
     = [(450, ''ins'')]
   \<and> within_window 150 [(100, ''i''), (180, ''in''), (300, ''ins'')]
   \<and> length (pending (run_inputs 150 page_loaded (take 2 [(100, ''i''), (180, ''in''), (300, ''ins'')]))) \<le> 1
   \<and> executed (advance 1000 (run_inputs 150 page_loaded [(100, ''i''), (180, ''in''), (400, ''ins'')]))
     = [(330, ''in''), (550, ''ins'')]"
proof (intro conjI)
  let ?e = "(100::nat, ''i'')"
  let ?es = "[(180::nat, ''in''), (300, ''ins'')]"
  let ?fs = "[(180::nat, ''in''), (400, ''ins'')]"
  have idle: "pending page_loaded = []" by (simp add: page_loaded_def)
  have now: "clock page_loaded \<le> fst ?e" by (simp add: page_loaded_def)
  have order: "sorted (map fst (?e # ?es))" by simp
  have quiet: "fst (last (?e # ?es)) + 150 \<le> 450" by simp
  note main = debounce_collapses_bursts[OF idle now order quiet]
  show w: "within_window 150 (?e # ?es)" by simp
  have "executed (advance 450 (run_inputs 150 page_loaded (?e # ?es)))
            = executed page_loaded @ [(fst (last (?e # ?es)) + 150, snd (last (?e # ?es)))]"
    using main[THEN conjunct2, THEN conjunct1] w by blast
  then show "executed (advance 450 (run_inputs 150 page_loaded (?e # ?es))) = [(450, ''ins'')]"
    by (simp add: page_loaded_def)
  show "length (pending (run_inputs 150 page_loaded (take 2 (?e # ?es)))) \<le> 1"
    using main[THEN conjunct2, THEN conjunct2] by blast
  have order': "sorted (map fst (?e # ?fs))" by simp
  have quiet': "fst (last (?e # ?fs)) + 150 \<le> 1000" by simp
  have "executed (advance 1000 (run_inputs 150 page_loaded (?e # ?fs)))
           = executed page_loaded @ spec_quiet_executions 150 (?e # ?fs)"
    by (rule debounce_collapses_bursts[OF idle now order' quiet', THEN conjunct1])
  then show "executed (advance 1000 (run_inputs 150 page_loaded (?e # ?fs)))
     = [(330, ''in''), (550, ''ins'')]"
    by (simp add: page_loaded_def)
qed

end

